theory Spec2Isabelle
  imports Complex_Main "HOL-Library.Word"
begin

section \<open>The camera tester: driver state machine and fleet rotation\<close>

text \<open>
  A shallow embedding of \<^verbatim>\<open>camera_tester.cpp\<close>: the class \<^verbatim>\<open>MiniDriver\<close>
  (one worker thread per camera) and the rotation loop of \<^verbatim>\<open>main\<close>.

  The librealsense SDK is outside the program. Every SDK call of a worker run either
  returns or throws an exception the worker catches (\<^verbatim>\<open>rs2::error\<close> or
  \<^verbatim>\<open>std::runtime_error\<close>); what the calls of one run answer is the \<open>device_run\<close>
  handed to the thread when it is spawned. The worker thread is a small machine with a
  program counter; the calling thread's blocking operations (\<^verbatim>\<open>join\<close>, the polling
  loop of \<^verbatim>\<open>start\<close>) let that machine step until their condition holds, and return
  \<open>None\<close> when it never does. Durations are real numbers of seconds, as the clock's
  ticks give them; they are only subtracted and compared with a constant. The
  \<^verbatim>\<open>int64_t\<close> locals are 64-bit words compared as signed values.
\<close>

subsection \<open>Data\<close>

datatype State = STATE_OFF | STATE_STARTING | STATE_RUNNING | STATE_ERROR

text \<open>The two exception types that \<^verbatim>\<open>run\<close> catches.\<close>

datatype sdk_error = Rs2_error | Runtime_error

text \<open>
  The lines written by the \<^verbatim>\<open>LOG\<close> macro, without their timestamp. \<open>Device_info\<close>
  stands for the seven information lines printed after the pipeline has started.
  \<open>FPS n t\<close> is the line of the throttled log for \<^verbatim>\<open>frame_counter\<close> \<open>n\<close> and \<open>t\<close>
  elapsed seconds; the quotient it prints first is a \<^verbatim>\<open>float\<close> narrowed from a
  division of doubles, which has no counterpart here and is left out of the line.
\<close>

datatype log_msg =
    Starting_driver
  | Started_driver
  | Performing_hardware_reset
  | Reset_triggered
  | Reset_complete
  | Device_info
  | FPS "64 word" real
  | Frame_number_reset "64 word" "64 word"
  | Librealsense_error
  | Librealsense_what
  | Librealsense_runtime_error

text \<open>
  What \<^verbatim>\<open>reset()\<close> meets: the enumeration throws, no enumerated device has the serial,
  \<^verbatim>\<open>hardware_reset\<close> throws, or the reset goes through.
\<close>

datatype reset_outcome =
    Query_throws sdk_error
  | Not_enumerated
  | Reset_throws sdk_error
  | Reset_done

text \<open>\<^verbatim>\<open>pipeline.start(config)\<close> and, after the loop, \<^verbatim>\<open>pipeline.stop()\<close>.\<close>

datatype start_outcome = Start_throws sdk_error | Start_ok

datatype stop_outcome = Stop_throws sdk_error | Stop_ok

text \<open>
  One call of \<^verbatim>\<open>wait_for_frames(5000)\<close>: it throws (a timeout among others), or it
  returns a frameset; \<open>Frames now fd\<close> carries the reading of \<^verbatim>\<open>Clock::now()\<close> taken
  right after and the frame number of the depth frame, if the set has one. The accessors
  \<^verbatim>\<open>get_depth_frame\<close> and \<^verbatim>\<open>get_frame_number\<close> are taken to return, as are the
  calls that read the device information after \<^verbatim>\<open>pipeline.start\<close>.
\<close>

datatype wait_outcome = Wait_throws sdk_error | Frames real "64 word option"

record device_run =
  reset_outcome :: reset_outcome
  pipeline_start :: start_outcome
  tp_started :: real
  waits :: "nat \<Rightarrow> wait_outcome"
  pipeline_stop :: stop_outcome

text \<open>The locals of \<^verbatim>\<open>run_unsafe\<close> that live across loop iterations.\<close>

record locals =
  tp_last_logged :: real
  last_frame_number :: "64 word"
  frame_counter :: "64 word"

text \<open>
  Where the worker thread stands: before \<^verbatim>\<open>reset()\<close>, before \<^verbatim>\<open>pipeline.start\<close>,
  at the loop condition, inside \<^verbatim>\<open>wait_for_frames\<close>, or returned from \<^verbatim>\<open>run\<close>.
\<close>

datatype worker_pc =
    At_reset
  | At_open
  | At_check locals
  | At_wait locals
  | Finished

text \<open>
  A joinable \<^verbatim>\<open>std::thread\<close>: its program counter, the answers of the device for this
  run, and how many \<^verbatim>\<open>wait_for_frames\<close> calls have returned so far.
\<close>

record std_thread =
  pc :: worker_pc
  dev :: device_run
  waited :: nat

text \<open>
  The fields of \<^verbatim>\<open>MiniDriver\<close>; \<open>thread = None\<close> is a \<^verbatim>\<open>std::thread\<close> that is not
  joinable. \<open>out\<close> collects what the driver and its worker write to \<^verbatim>\<open>std::cout\<close>.
\<close>

record MiniDriver =
  serial :: string
  thread :: "std_thread option"
  interrupt_requested :: bool
  state :: State
  out :: "log_msg list"

text \<open>
  Failures of the process itself: a \<^verbatim>\<open>std::thread\<close> assigned while joinable calls
  \<^verbatim>\<open>std::terminate\<close>; \<^verbatim>\<open>join\<close> on a thread that is not joinable throws
  \<^verbatim>\<open>std::system_error\<close>; \<^verbatim>\<open>drivers[i]\<close> beyond the vector is undefined behaviour.
\<close>

datatype error = Std_terminate | System_error | Out_of_range

text \<open>
  The result of a call of the controlling thread: \<open>None\<close> when the call blocks forever,
  \<open>Some (Inl e)\<close> when the process fails, \<open>Some (Inr x)\<close> when it returns.
\<close>

type_synonym 'a res = "(error + 'a) option"

definition then_res :: "'a res \<Rightarrow> ('a \<Rightarrow> 'b res) \<Rightarrow> 'b res" where
  "then_res r f = (case r of None \<Rightarrow> None | Some (Inl e) \<Rightarrow> Some (Inl e) | Some (Inr x) \<Rightarrow> f x)"

definition map_res :: "('a \<Rightarrow> 'b) \<Rightarrow> 'a res \<Rightarrow> 'b res" where
  "map_res f r = then_res r (\<lambda>x. Some (Inr (f x)))"

subsection \<open>MiniDriver\<close>

definition new_MiniDriver :: "string \<Rightarrow> MiniDriver" where
  "new_MiniDriver s =
     \<lparr>serial = s, thread = None, interrupt_requested = False,
      state = STATE_OFF, out = []\<rparr>"

definition is_running :: "MiniDriver \<Rightarrow> bool" where
  "is_running d = (state d = STATE_RUNNING)"

definition LOG :: "log_msg list \<Rightarrow> MiniDriver \<Rightarrow> MiniDriver" where
  "LOG ms d = d\<lparr>out := out d @ ms\<rparr>"

text \<open>The two \<^verbatim>\<open>catch\<close> blocks of \<^verbatim>\<open>run\<close>; the thread function returns after them.\<close>

definition caught :: "sdk_error \<Rightarrow> std_thread \<Rightarrow> MiniDriver \<Rightarrow> MiniDriver" where
  "caught e t d =
     LOG (case e of Rs2_error \<Rightarrow> [Librealsense_error, Librealsense_what]
                  | Runtime_error \<Rightarrow> [Librealsense_runtime_error])
       (d\<lparr>state := STATE_ERROR, thread := Some (t\<lparr>pc := Finished\<rparr>)\<rparr>)"

text \<open>
  The throttled log of the sampling loop (source lines 162 to 175). The local
  \<^verbatim>\<open>float fps\<close> is only printed; the line carries its two operands.
\<close>

definition throttle_log :: "real \<Rightarrow> locals \<Rightarrow> log_msg list \<times> locals" where
  "throttle_log now l =
     (let time_since_last_log = now - tp_last_logged l in
      if time_since_last_log > 1
      then ([FPS (frame_counter l) time_since_last_log],
            l\<lparr>frame_counter := 0, tp_last_logged := now\<rparr>)
      else ([], l))"

text \<open>The frame number check of the sampling loop (source lines 181 to 192).\<close>

definition check_frame_number :: "64 word \<Rightarrow> locals \<Rightarrow> log_msg list \<times> locals" where
  "check_frame_number new_frame_number l =
     (if last_frame_number l <s new_frame_number
      then ([], l\<lparr>frame_counter := frame_counter l + 1, last_frame_number := new_frame_number\<rparr>)
      else if new_frame_number <s last_frame_number l
      then ([Frame_number_reset (last_frame_number l) new_frame_number],
            l\<lparr>last_frame_number := new_frame_number\<rparr>)
      else ([], l\<lparr>last_frame_number := new_frame_number\<rparr>))"

text \<open>
  One iteration of the loop after \<^verbatim>\<open>wait_for_frames\<close> has returned; without a depth
  frame the iteration ends at \<^verbatim>\<open>continue\<close>.
\<close>

definition loop_body :: "real \<Rightarrow> 64 word option \<Rightarrow> locals \<Rightarrow> log_msg list \<times> locals" where
  "loop_body now fd l =
     (case throttle_log now l of (ms1, l1) \<Rightarrow>
        (case fd of
           None \<Rightarrow> (ms1, l1)
         | Some new_frame_number \<Rightarrow>
             (case check_frame_number new_frame_number l1 of (ms2, l2) \<Rightarrow> (ms1 @ ms2, l2))))"

text \<open>
  One step of the worker thread (\<^verbatim>\<open>run\<close>, \<^verbatim>\<open>reset\<close>, \<^verbatim>\<open>run_unsafe\<close>). A driver
  without a thread, or whose thread function has returned, does not move.
\<close>

definition worker_step :: "MiniDriver \<Rightarrow> MiniDriver" where
  "worker_step d =
     (case thread d of
        None \<Rightarrow> d
      | Some t \<Rightarrow>
          (case pc t of
             At_reset \<Rightarrow>
               (case reset_outcome (dev t) of
                  Query_throws e \<Rightarrow> caught e t d
                | Not_enumerated \<Rightarrow> d\<lparr>thread := Some (t\<lparr>pc := At_open\<rparr>)\<rparr>
                | Reset_throws e \<Rightarrow> caught e t (LOG [Performing_hardware_reset] d)
                | Reset_done \<Rightarrow>
                    LOG [Performing_hardware_reset, Reset_triggered, Reset_complete]
                      (d\<lparr>thread := Some (t\<lparr>pc := At_open\<rparr>)\<rparr>))
           | At_open \<Rightarrow>
               (case pipeline_start (dev t) of
                  Start_throws e \<Rightarrow> caught e t d
                | Start_ok \<Rightarrow>
                    LOG [Device_info]
                      (d\<lparr>state := STATE_RUNNING,
                         thread := Some (t\<lparr>pc := At_check
                           \<lparr>tp_last_logged = tp_started (dev t), last_frame_number = 0,
                            frame_counter = 0\<rparr>\<rparr>)\<rparr>))
           | At_check l \<Rightarrow>
               (if interrupt_requested d
                then (case pipeline_stop (dev t) of
                        Stop_throws e \<Rightarrow> caught e t d
                      | Stop_ok \<Rightarrow> d\<lparr>state := STATE_OFF, thread := Some (t\<lparr>pc := Finished\<rparr>)\<rparr>)
                else d\<lparr>thread := Some (t\<lparr>pc := At_wait l\<rparr>)\<rparr>)
           | At_wait l \<Rightarrow>
               (case waits (dev t) (waited t) of
                  Wait_throws e \<Rightarrow> caught e t d
                | Frames now fd \<Rightarrow>
                    (case loop_body now fd l of (ms, l') \<Rightarrow>
                       LOG ms (d\<lparr>thread := Some (t\<lparr>pc := At_check l', waited := Suc (waited t)\<rparr>)\<rparr>)))
           | Finished \<Rightarrow> d))"

text \<open>
  \<^verbatim>\<open>thread_.join()\<close>: the caller waits while the worker runs on, until the thread
  function has returned; the thread is not joinable afterwards.
\<close>

partial_function (option) join :: "MiniDriver \<Rightarrow> MiniDriver res" where
  "join d =
     (case thread d of
        None \<Rightarrow> Some (Inl System_error)
      | Some t \<Rightarrow>
          if pc t = Finished then Some (Inr (d\<lparr>thread := None\<rparr>))
          else join (worker_step d))"

definition stop :: "MiniDriver \<Rightarrow> MiniDriver res" where
  "stop d =
     (if thread d \<noteq> None
      then then_res (join (d\<lparr>interrupt_requested := True\<rparr>))
             (\<lambda>d'. Some (Inr (d'\<lparr>interrupt_requested := False\<rparr>)))
      else Some (Inr d))"

text \<open>
  The polling loop of \<^verbatim>\<open>start\<close>: the caller sleeps while \<^verbatim>\<open>state_\<close> is
  \<^verbatim>\<open>STATE_STARTING\<close>, the worker runs on.
\<close>

partial_function (option) wait_until_ready :: "MiniDriver \<Rightarrow> MiniDriver res" where
  "wait_until_ready d =
     (if state d = STATE_STARTING then wait_until_ready (worker_step d)
      else Some (Inr d))"

text \<open>
  The assignment \<^verbatim>\<open>thread_ = std::thread(...)\<close>: the new thread stands before
  \<^verbatim>\<open>reset()\<close>; assigning over a joinable thread terminates the process.
\<close>

definition spawn :: "device_run \<Rightarrow> MiniDriver \<Rightarrow> MiniDriver res" where
  "spawn r d =
     (if thread d \<noteq> None then Some (Inl Std_terminate)
      else Some (Inr (d\<lparr>thread := Some \<lparr>pc = At_reset, dev = r, waited = 0\<rparr>\<rparr>)))"

text \<open>\<^verbatim>\<open>start\<close> from its second line on (source lines 62 to 72).\<close>

definition start_after_stop :: "device_run \<Rightarrow> bool \<Rightarrow> MiniDriver \<Rightarrow> MiniDriver res" where
  "start_after_stop r block_until_ready d =
     then_res (spawn r ((LOG [Starting_driver] d)\<lparr>state := STATE_STARTING\<rparr>))
       (\<lambda>d1. then_res (if block_until_ready then wait_until_ready d1 else Some (Inr d1))
          (\<lambda>d2. Some (Inr (LOG [Started_driver] d2))))"

definition start :: "device_run \<Rightarrow> bool \<Rightarrow> MiniDriver \<Rightarrow> MiniDriver res" where
  "start r block_until_ready d = then_res (stop d) (start_after_stop r block_until_ready)"

text \<open>
  The worker runs concurrently with its caller: between two calls on a driver it may
  have made any number of steps.
\<close>

definition advance :: "nat \<Rightarrow> MiniDriver \<Rightarrow> MiniDriver" where
  "advance k d = (worker_step ^^ k) d"


subsection \<open>The rotation loop of main\<close>

text \<open>
  Where the controlling thread stands: in the initial loop before the access to
  \<^verbatim>\<open>drivers[i]\<close>, at the head of \<^verbatim>\<open>while (true)\<close>, in one of the two loops of the
  branch chosen by \<^verbatim>\<open>toggle\<close>, or in the final sleep of an iteration.
\<close>

datatype main_pc = Init nat | Check | Stopping nat | Starting nat | Sleep

text \<open>
  The variables of \<^verbatim>\<open>main\<close>; \<open>now_read\<close> is the constant \<^verbatim>\<open>now\<close> of the current
  iteration.
\<close>

record fleet =
  drivers :: "MiniDriver list"
  toggle :: bool
  started :: real
  now_read :: real
  control :: main_pc

text \<open>
  What the surroundings give to one step of the controlling thread: the reading of
  \<^verbatim>\<open>Clock::now()\<close>, the answers of the device to a worker spawned in this step, and
  how many steps the worker of each driver makes meanwhile.
\<close>

record input =
  clock :: real
  device :: device_run
  progress :: "nat \<Rightarrow> nat"

text \<open>\<^verbatim>\<open>drivers[i]->f()\<close>; nothing checks the index.\<close>

definition at_index ::
  "nat \<Rightarrow> (MiniDriver \<Rightarrow> MiniDriver res) \<Rightarrow> MiniDriver list \<Rightarrow> MiniDriver list res" where
  "at_index i f ds =
     (if i < length ds then then_res (f (ds ! i)) (\<lambda>d. Some (Inr (ds[i := d])))
      else Some (Inl Out_of_range))"

text \<open>Every worker makes the steps it is given while the controlling thread makes one.\<close>

definition workers_advance :: "(nat \<Rightarrow> nat) \<Rightarrow> MiniDriver list \<Rightarrow> MiniDriver list" where
  "workers_advance p ds = map (\<lambda>i. advance (p i) (ds ! i)) [0..<length ds]"

text \<open>
  One step of the controlling thread. The statement \<^verbatim>\<open>toggle != toggle;\<close> compares
  and drops the result.
\<close>

definition control_step :: "input \<Rightarrow> fleet \<Rightarrow> fleet res" where
  "control_step inp c =
     (case control c of
        Init i \<Rightarrow>
          if i < 4
          then then_res (at_index i (start (device inp) True) (drivers c))
                 (\<lambda>ds. Some (Inr (c\<lparr>drivers := ds, control := Init (i + 1)\<rparr>)))
          else Some (Inr (c\<lparr>control := Check\<rparr>))
      | Check \<Rightarrow>
          (let now = clock inp; run_time = now - started c in
           if run_time > 3600
           then Some (Inr (c\<lparr>now_read := now, control := Stopping (if toggle c then 0 else 4)\<rparr>))
           else Some (Inr (c\<lparr>now_read := now, control := Sleep\<rparr>)))
      | Stopping i \<Rightarrow>
          if i < (if toggle c then 4 else 8)
          then then_res (at_index i stop (drivers c))
                 (\<lambda>ds. Some (Inr (c\<lparr>drivers := ds, control := Stopping (i + 1)\<rparr>)))
          else Some (Inr (c\<lparr>control := Starting (if toggle c then 4 else 0)\<rparr>))
      | Starting i \<Rightarrow>
          if i < (if toggle c then 8 else 4)
          then then_res (at_index i (start (device inp) True) (drivers c))
                 (\<lambda>ds. Some (Inr (c\<lparr>drivers := ds, control := Starting (i + 1)\<rparr>)))
          else (let unused = (toggle c \<noteq> toggle c) in
                Some (Inr (c\<lparr>started := now_read c, control := Sleep\<rparr>)))
      | Sleep \<Rightarrow> Some (Inr (c\<lparr>control := Check\<rparr>)))"

definition main_step :: "input \<Rightarrow> fleet \<Rightarrow> fleet res" where
  "main_step inp c =
     then_res (control_step inp c)
       (\<lambda>c'. Some (Inr (c'\<lparr>drivers := workers_advance (progress inp) (drivers c')\<rparr>)))"

fun main_run :: "input list \<Rightarrow> fleet \<Rightarrow> fleet res" where
  "main_run [] c = Some (Inr c)"
| "main_run (inp # inps) c = then_res (main_step inp c) (main_run inps)"

text \<open>
  \<^verbatim>\<open>main\<close> up to its first loop: one driver for each enumerated serial number;
  \<open>t0\<close> is the reading of the clock stored in \<^verbatim>\<open>started\<close>.
\<close>

definition main_init :: "string list \<Rightarrow> real \<Rightarrow> fleet" where
  "main_init serials t0 =
     \<lparr>drivers = map new_MiniDriver serials, toggle = True, started = t0, now_read = t0,
      control = Init 0\<rparr>"


subsection \<open>Predicates of the statements\<close>

text \<open>
  The state a driver shows agrees with where its worker stands: \<^verbatim>\<open>STATE_STARTING\<close>
  until the pipeline has started, \<^verbatim>\<open>STATE_RUNNING\<close> in the sampling loop, and
  \<^verbatim>\<open>STATE_OFF\<close> or \<^verbatim>\<open>STATE_ERROR\<close> without a worker or after its return.
\<close>

definition consistent :: "MiniDriver \<Rightarrow> bool" where
  "consistent d =
     (case thread d of
        None \<Rightarrow> state d = STATE_OFF \<or> state d = STATE_ERROR
      | Some t \<Rightarrow>
          (case pc t of
             At_reset \<Rightarrow> state d = STATE_STARTING
           | At_open \<Rightarrow> state d = STATE_STARTING
           | At_check l \<Rightarrow> state d = STATE_RUNNING
           | At_wait l \<Rightarrow> state d = STATE_RUNNING
           | Finished \<Rightarrow> state d = STATE_OFF \<or> state d = STATE_ERROR))"

text \<open>A driver as its owner finds it between two calls.\<close>

definition driver_inv :: "MiniDriver \<Rightarrow> bool" where
  "driver_inv d \<longleftrightarrow> consistent d \<and> \<not> interrupt_requested d"

text \<open>The thread function of the driver is still running.\<close>

definition live :: "MiniDriver \<Rightarrow> bool" where
  "live d = (case thread d of None \<Rightarrow> False | Some t \<Rightarrow> pc t \<noteq> Finished)"

text \<open>
  An SDK call that the worker still makes once its interrupt is requested will throw:
  the calls up to the first loop condition, the \<^verbatim>\<open>wait_for_frames\<close> under way, or
  \<^verbatim>\<open>pipeline.stop()\<close> after the loop.
\<close>

definition pending_throw :: "MiniDriver \<Rightarrow> bool" where
  "pending_throw d =
     (case thread d of
        None \<Rightarrow> False
      | Some t \<Rightarrow>
          (case pc t of
             At_reset \<Rightarrow>
               (case reset_outcome (dev t) of
                  Query_throws e \<Rightarrow> True
                | Reset_throws e \<Rightarrow> True
                | _ \<Rightarrow> pipeline_start (dev t) \<noteq> Start_ok \<or> pipeline_stop (dev t) \<noteq> Stop_ok)
           | At_open \<Rightarrow> pipeline_start (dev t) \<noteq> Start_ok \<or> pipeline_stop (dev t) \<noteq> Stop_ok
           | At_check l \<Rightarrow> pipeline_stop (dev t) \<noteq> Stop_ok
           | At_wait l \<Rightarrow>
               (case waits (dev t) (waited t) of
                  Wait_throws e \<Rightarrow> True
                | _ \<Rightarrow> pipeline_stop (dev t) \<noteq> Stop_ok)
           | Finished \<Rightarrow> False))"

text \<open>
  How many steps the worker is from its return at most, once its interrupt is requested.
\<close>

fun pc_rank :: "worker_pc \<Rightarrow> nat" where
  "pc_rank At_reset = 4"
| "pc_rank At_open = 3"
| "pc_rank (At_wait l) = 2"
| "pc_rank (At_check l) = 1"
| "pc_rank Finished = 0"

definition rank :: "MiniDriver \<Rightarrow> nat" where
  "rank d = (case thread d of None \<Rightarrow> 0 | Some t \<Rightarrow> pc_rank (pc t))"

text \<open>\<open>join\<close> returns \<open>d'\<close> for the interrupted driver \<open>d\<close>.\<close>

definition joined :: "MiniDriver \<Rightarrow> MiniDriver \<Rightarrow> bool" where
  "joined d d' \<longleftrightarrow>
     join d = Some (Inr d') \<and> thread d' = None \<and> interrupt_requested d' \<and>
     serial d' = serial d \<and>
     state d' = (if pending_throw d then STATE_ERROR else STATE_OFF)"

text \<open>Neither \<^verbatim>\<open>reset()\<close> nor \<^verbatim>\<open>pipeline.start\<close> throws in this run.\<close>

definition opens :: "device_run \<Rightarrow> bool" where
  "opens r \<longleftrightarrow>
     (reset_outcome r = Not_enumerated \<or> reset_outcome r = Reset_done) \<and>
     pipeline_start r = Start_ok"

text \<open>The polling loop of \<^verbatim>\<open>start\<close> returns \<open>d'\<close> for the driver \<open>d\<close> of run \<open>r\<close>.\<close>

definition ready :: "device_run \<Rightarrow> MiniDriver \<Rightarrow> MiniDriver \<Rightarrow> bool" where
  "ready r d d' \<longleftrightarrow>
     wait_until_ready d = Some (Inr d') \<and> consistent d' \<and>
     interrupt_requested d' = interrupt_requested d \<and> serial d' = serial d \<and>
     (\<exists>t. thread d' = Some t \<and> dev t = r) \<and>
     state d' = (if opens r then STATE_RUNNING else STATE_ERROR)"

text \<open>The two groups of the rotation: \<^verbatim>\<open>drivers[0..4)\<close> and \<^verbatim>\<open>drivers[4..8)\<close>.\<close>

definition group_A :: "fleet \<Rightarrow> MiniDriver list" where
  "group_A c = take 4 (drivers c)"

definition group_B :: "fleet \<Rightarrow> MiniDriver list" where
  "group_B c = take 4 (drop 4 (drivers c))"

definition is_off :: "MiniDriver \<Rightarrow> bool" where
  "is_off d = (state d = STATE_OFF)"

text \<open>Stopped: no thread, and neither \<^verbatim>\<open>STATE_RUNNING\<close> nor \<^verbatim>\<open>STATE_STARTING\<close>.\<close>

definition idle :: "MiniDriver \<Rightarrow> bool" where
  "idle d \<longleftrightarrow> thread d = None \<and> (state d = STATE_OFF \<or> state d = STATE_ERROR)"

text \<open>One of the two groups has all its drivers in \<^verbatim>\<open>STATE_OFF\<close>.\<close>

definition one_group_off :: "fleet \<Rightarrow> bool" where
  "one_group_off c \<longleftrightarrow> list_all is_off (group_A c) \<or> list_all is_off (group_B c)"

definition one_group_idle :: "fleet \<Rightarrow> bool" where
  "one_group_idle c \<longleftrightarrow> list_all idle (group_A c) \<or> list_all idle (group_B c)"

text \<open>What holds of the fleet at every step of the controlling thread.\<close>

definition fleet_inv :: "fleet \<Rightarrow> bool" where
  "fleet_inv c \<longleftrightarrow>
     toggle c \<and> list_all driver_inv (drivers c) \<and>
     (case control c of
        Init i \<Rightarrow> i \<le> 4 \<and> list_all idle (group_B c)
      | Check \<Rightarrow> one_group_idle c
      | Stopping i \<Rightarrow> i \<le> 4 \<and> list_all idle (take i (drivers c)) \<and> one_group_idle c
      | Starting i \<Rightarrow> 4 \<le> i \<and> list_all idle (group_A c)
      | Sleep \<Rightarrow> one_group_idle c)"

definition states :: "fleet \<Rightarrow> State list" where
  "states c = map state (drivers c)"

definition is_reset :: "log_msg \<Rightarrow> bool" where
  "is_reset m = (case m of Frame_number_reset a b \<Rightarrow> True | _ \<Rightarrow> False)"

text \<open>The locals of the sampling loop, while the worker is in it.\<close>

definition loop_locals :: "MiniDriver \<Rightarrow> locals option" where
  "loop_locals d =
     (case thread d of
        None \<Rightarrow> None
      | Some t \<Rightarrow> (case pc t of At_check l \<Rightarrow> Some l | At_wait l \<Rightarrow> Some l | _ \<Rightarrow> None))"

definition no_depth :: "wait_outcome \<Rightarrow> bool" where
  "no_depth w = (case w of Frames now None \<Rightarrow> True | _ \<Rightarrow> False)"

text \<open>
  The controlling thread without the drivers: where it stands, how many drivers there
  are, and its variables.
\<close>

record outline =
  o_control :: main_pc
  o_size :: nat
  o_toggle :: bool
  o_started :: real
  o_now :: real

definition outline_of :: "fleet \<Rightarrow> outline" where
  "outline_of c =
     \<lparr>o_control = control c, o_size = length (drivers c), o_toggle = toggle c,
      o_started = started c, o_now = now_read c\<rparr>"

definition outline_access :: "nat \<Rightarrow> main_pc \<Rightarrow> outline \<Rightarrow> outline res" where
  "outline_access i next_pc ol =
     (if i < o_size ol then Some (Inr (ol\<lparr>o_control := next_pc\<rparr>)) else Some (Inl Out_of_range))"

definition outline_step :: "real \<Rightarrow> outline \<Rightarrow> outline res" where
  "outline_step now ol =
     (case o_control ol of
        Init i \<Rightarrow>
          if i < 4 then outline_access i (Init (i + 1)) ol
          else Some (Inr (ol\<lparr>o_control := Check\<rparr>))
      | Check \<Rightarrow>
          if now - o_started ol > 3600
          then Some (Inr (ol\<lparr>o_now := now, o_control := Stopping (if o_toggle ol then 0 else 4)\<rparr>))
          else Some (Inr (ol\<lparr>o_now := now, o_control := Sleep\<rparr>))
      | Stopping i \<Rightarrow>
          if i < (if o_toggle ol then 4 else 8) then outline_access i (Stopping (i + 1)) ol
          else Some (Inr (ol\<lparr>o_control := Starting (if o_toggle ol then 4 else 0)\<rparr>))
      | Starting i \<Rightarrow>
          if i < (if o_toggle ol then 8 else 4) then outline_access i (Starting (i + 1)) ol
          else Some (Inr (ol\<lparr>o_started := o_now ol, o_control := Sleep\<rparr>))
      | Sleep \<Rightarrow> Some (Inr (ol\<lparr>o_control := Check\<rparr>)))"

fun outline_run :: "real list \<Rightarrow> outline \<Rightarrow> outline res" where
  "outline_run [] ol = Some (Inr ol)"
| "outline_run (now # nows) ol = then_res (outline_step now ol) (outline_run nows)"

subsection \<open>Concrete devices, drivers and schedules\<close>

text \<open>A camera that resets, opens and delivers a depth frame six times a second.\<close>

definition good_run :: device_run where
  "good_run =
     \<lparr>reset_outcome = Reset_done, pipeline_start = Start_ok, tp_started = 0,
      waits = (\<lambda>k. Frames (real k / 6) (Some (of_nat k))), pipeline_stop = Stop_ok\<rparr>"

text \<open>A camera whose stream cannot be opened.\<close>

definition failing_run :: device_run where
  "failing_run = good_run\<lparr>pipeline_start := Start_throws Rs2_error\<rparr>"

text \<open>
  A camera that delivers two framesets without a depth frame, then depth frames whose
  numbers start at 0.
\<close>

definition late_depth_run :: device_run where
  "late_depth_run =
     good_run\<lparr>waits := (\<lambda>k. if k < 2 then Frames (real k) None else Frames (real k) (Some (of_nat (k - 2))))\<rparr>"

definition first_locals :: locals where
  "first_locals = \<lparr>tp_last_logged = 0, last_frame_number = 0, frame_counter = 0\<rparr>"

definition running_driver :: MiniDriver where
  "running_driver =
     \<lparr>serial = ''cam'', thread = Some \<lparr>pc = At_check first_locals, dev = good_run, waited = 0\<rparr>,
      interrupt_requested = False, state = STATE_RUNNING, out = []\<rparr>"

text \<open>
  A driver whose worker waits for its sixth frameset (depth frame number 5) after the
  frame number \<open>n\<close>.
\<close>

definition waiting_driver :: "64 word \<Rightarrow> MiniDriver" where
  "waiting_driver n =
     \<lparr>serial = ''cam'',
      thread = Some \<lparr>pc = At_wait \<lparr>tp_last_logged = 0, last_frame_number = n, frame_counter = 3\<rparr>,
                     dev = good_run, waited = 5\<rparr>,
      interrupt_requested = False, state = STATE_RUNNING, out = []\<rparr>"

definition opening_driver :: MiniDriver where
  "opening_driver =
     \<lparr>serial = ''cam'', thread = Some \<lparr>pc = At_open, dev = late_depth_run, waited = 0\<rparr>,
      interrupt_requested = False, state = STATE_STARTING, out = []\<rparr>"

definition eight :: "string list" where
  "eight = [''a'', ''b'', ''c'', ''d'', ''e'', ''f'', ''g'', ''h'']"

text \<open>The clock reads \<open>t\<close>, the camera is \<open>r\<close>, and no worker moves meanwhile.\<close>

definition inp_at :: "real \<Rightarrow> device_run \<Rightarrow> input" where
  "inp_at t r = \<lparr>clock = t, device = r, progress = (\<lambda>i. 0)\<rparr>"

text \<open>
  The first loop (five steps), one rotation when the clock reads 3601 and the next one
  when it reads 7202 (twelve steps each, back to the head of the loop).
\<close>

definition one_rotation :: "input list" where
  "one_rotation = replicate 5 (inp_at 0 good_run) @ replicate 12 (inp_at 3601 good_run)"

definition two_rotations :: "input list" where
  "two_rotations = one_rotation @ replicate 12 (inp_at 7202 good_run)"

text \<open>The same first rotation when the camera of \<^verbatim>\<open>drivers[0]\<close> cannot be opened.\<close>

definition rotation_after_failure :: "input list" where
  "rotation_after_failure =
     inp_at 0 failing_run # replicate 4 (inp_at 0 good_run) @ replicate 12 (inp_at 3601 good_run)"


section \<open>Properties\<close>

subsection \<open>The worker and the blocking calls\<close>

lemma worker_step_interrupt [simp]:
  "interrupt_requested (worker_step d) = interrupt_requested d"
  by (simp add: worker_step_def caught_def LOG_def
      split: option.splits worker_pc.splits reset_outcome.splits start_outcome.splits
        stop_outcome.splits wait_outcome.splits prod.splits)

lemma worker_step_serial [simp]: "serial (worker_step d) = serial d"
  by (simp add: worker_step_def caught_def LOG_def
      split: option.splits worker_pc.splits reset_outcome.splits start_outcome.splits
        stop_outcome.splits wait_outcome.splits prod.splits)

lemma worker_step_no_thread: "thread d = None \<Longrightarrow> worker_step d = d"
  by (simp add: worker_step_def)

lemma worker_step_Finished: "thread d = Some t \<Longrightarrow> pc t = Finished \<Longrightarrow> worker_step d = d"
  by (simp add: worker_step_def)

lemma worker_step_thread: "thread d \<noteq> None \<Longrightarrow> thread (worker_step d) \<noteq> None"
  by (auto simp add: worker_step_def caught_def LOG_def
      split: option.splits worker_pc.splits reset_outcome.splits start_outcome.splits
        stop_outcome.splits wait_outcome.splits prod.splits)

lemma worker_step_consistent: "consistent d \<Longrightarrow> consistent (worker_step d)"
  by (auto simp add: consistent_def worker_step_def caught_def LOG_def
      split: option.splits worker_pc.splits reset_outcome.splits start_outcome.splits
        stop_outcome.splits wait_outcome.splits prod.splits)

lemma join_Finished:
  "thread d = Some t \<Longrightarrow> pc t = Finished \<Longrightarrow> join d = Some (Inr (d\<lparr>thread := None\<rparr>))"
  by (subst join.simps) simp

lemma join_step:
  "thread d = Some t \<Longrightarrow> pc t \<noteq> Finished \<Longrightarrow> join d = join (worker_step d)"
  by (subst join.simps) simp

lemma join_At_check:
  assumes "thread d = Some t" "pc t = At_check l" "interrupt_requested d"
  shows "\<exists>d'. joined d d'"
proof (cases "pipeline_stop (dev t)")
  case (Stop_throws e)
  have "worker_step d = caught e t d" "pending_throw d"
    using assms Stop_throws by (simp_all add: worker_step_def pending_throw_def)
  moreover have "join d = join (worker_step d)" using join_step [of d t] assms by simp
  moreover have "join (caught e t d) = Some (Inr ((caught e t d)\<lparr>thread := None\<rparr>))"
    by (rule join_Finished [where t = "t\<lparr>pc := Finished\<rparr>"]) (simp_all add: caught_def LOG_def)
  ultimately show ?thesis using assms by (simp add: joined_def caught_def LOG_def)
next
  case Stop_ok
  let ?d1 = "worker_step d"
  have 1: "?d1 = d\<lparr>state := STATE_OFF, thread := Some (t\<lparr>pc := Finished\<rparr>)\<rparr>"
    using assms Stop_ok by (simp add: worker_step_def)
  have "join d = join ?d1" using join_step [of d t] assms by simp
  also have "\<dots> = Some (Inr (?d1\<lparr>thread := None\<rparr>))"
    by (rule join_Finished [where t = "t\<lparr>pc := Finished\<rparr>"]) (simp_all add: 1)
  finally show ?thesis using assms Stop_ok by (simp add: joined_def 1 pending_throw_def)
qed

lemma join_caught:
  assumes "thread d = Some t" "pc t \<noteq> Finished" "worker_step d = caught e t d0"
    "interrupt_requested d0" "serial d0 = serial d" "pending_throw d"
  shows "\<exists>d'. joined d d'"
proof -
  have "join d = join (caught e t d0)" using join_step [of d t] assms by simp
  also have "\<dots> = Some (Inr ((caught e t d0)\<lparr>thread := None\<rparr>))"
    by (rule join_Finished [where t = "t\<lparr>pc := Finished\<rparr>"]) (simp_all add: caught_def LOG_def)
  finally show ?thesis using assms by (simp add: joined_def caught_def LOG_def)
qed

lemma joined_step:
  assumes "thread d = Some t" "pc t \<noteq> Finished" "joined (worker_step d) d'"
    "pending_throw (worker_step d) = pending_throw d"
  shows "joined d d'"
  using assms join_step [of d t] by (simp add: joined_def)

lemma join_At_wait:
  assumes "thread d = Some t" "pc t = At_wait l" "interrupt_requested d"
  shows "\<exists>d'. joined d d'"
proof (cases "waits (dev t) (waited t)")
  case (Wait_throws e)
  show ?thesis
    by (rule join_caught [where e = e and ?d0.0 = d and t = t])
      (use assms Wait_throws in \<open>simp_all add: worker_step_def pending_throw_def\<close>)
next
  case (Frames now fd)
  obtain ms l' where lb: "loop_body now fd l = (ms, l')" by (cases "loop_body now fd l")
  let ?t1 = "t\<lparr>pc := At_check l', waited := Suc (waited t)\<rparr>"
  have 1: "worker_step d = LOG ms (d\<lparr>thread := Some ?t1\<rparr>)"
    using assms Frames lb by (simp add: worker_step_def)
  have "\<exists>d'. joined (worker_step d) d'"
    by (rule join_At_check [where t = ?t1 and l = l']) (use assms in \<open>simp_all add: 1 LOG_def\<close>)
  then obtain d' where "joined (worker_step d) d'" ..
  moreover have "pending_throw (worker_step d) = pending_throw d"
    using assms Frames by (simp add: 1 LOG_def pending_throw_def)
  ultimately have "joined d d'" using assms(1,2) by (intro joined_step [of d t]) simp_all
  then show ?thesis ..
qed

lemma join_At_open:
  assumes "thread d = Some t" "pc t = At_open" "interrupt_requested d"
  shows "\<exists>d'. joined d d'"
proof (cases "pipeline_start (dev t)")
  case (Start_throws e)
  show ?thesis
    by (rule join_caught [where e = e and ?d0.0 = d and t = t])
      (use assms Start_throws in \<open>simp_all add: worker_step_def pending_throw_def\<close>)
next
  case Start_ok
  let ?l = "\<lparr>tp_last_logged = tp_started (dev t), last_frame_number = 0, frame_counter = 0\<rparr>"
  let ?t1 = "t\<lparr>pc := At_check ?l\<rparr>"
  have 1: "worker_step d = LOG [Device_info] (d\<lparr>state := STATE_RUNNING, thread := Some ?t1\<rparr>)"
    using assms Start_ok by (simp add: worker_step_def)
  have "\<exists>d'. joined (worker_step d) d'"
    by (rule join_At_check [where t = ?t1 and l = ?l]) (use assms in \<open>simp_all add: 1 LOG_def\<close>)
  then obtain d' where "joined (worker_step d) d'" ..
  moreover have "pending_throw (worker_step d) = pending_throw d"
    using assms Start_ok by (simp add: 1 LOG_def pending_throw_def)
  ultimately have "joined d d'" using assms(1,2) by (intro joined_step [of d t]) simp_all
  then show ?thesis ..
qed

lemma join_At_reset:
  assumes "thread d = Some t" "pc t = At_reset" "interrupt_requested d"
  shows "\<exists>d'. joined d d'"
proof -
  have thrown: "\<exists>d'. joined d d'"
    if "worker_step d = caught e t d0" "interrupt_requested d0" "serial d0 = serial d"
      "pending_throw d" for e d0
    by (rule join_caught [where e = e and ?d0.0 = d0 and t = t]) (use assms that in simp_all)
  have onward: "\<exists>d'. joined d d'"
    if "thread (worker_step d) = Some (t\<lparr>pc := At_open\<rparr>)"
      "pending_throw d = (pipeline_start (dev t) \<noteq> Start_ok \<or> pipeline_stop (dev t) \<noteq> Stop_ok)"
  proof -
    have "\<exists>d'. joined (worker_step d) d'"
      by (rule join_At_open [where t = "t\<lparr>pc := At_open\<rparr>"]) (use assms that in simp_all)
    then obtain d' where "joined (worker_step d) d'" ..
    moreover have "pending_throw (worker_step d) = pending_throw d"
      using that by (simp add: pending_throw_def)
    ultimately have "joined d d'" using assms(1,2) by (intro joined_step [of d t]) simp_all
    then show ?thesis ..
  qed
  show ?thesis
  proof (cases "reset_outcome (dev t)")
    case (Query_throws e)
    show ?thesis
      by (rule thrown [where e = e and ?d0.0 = d])
        (use assms Query_throws in \<open>simp_all add: worker_step_def pending_throw_def\<close>)
  next
    case Not_enumerated
    show ?thesis
      by (rule onward) (use assms Not_enumerated in \<open>simp_all add: worker_step_def pending_throw_def\<close>)
  next
    case (Reset_throws e)
    show ?thesis
      by (rule thrown [where e = e and ?d0.0 = "LOG [Performing_hardware_reset] d"])
        (use assms Reset_throws in \<open>simp_all add: worker_step_def pending_throw_def LOG_def\<close>)
  next
    case Reset_done
    show ?thesis
      by (rule onward) (use assms Reset_done in \<open>simp_all add: worker_step_def pending_throw_def LOG_def\<close>)
  qed
qed

lemma join_interrupted:
  assumes "thread d = Some t" "pc t \<noteq> Finished" "interrupt_requested d"
  shows "\<exists>d'. joined d d'"
  using assms join_At_reset join_At_open join_At_check join_At_wait
  by (cases "pc t") blast+


lemma worker_step_rank:
  "interrupt_requested d \<Longrightarrow> rank d \<noteq> 0 \<Longrightarrow> rank (worker_step d) < rank d"
  by (auto simp add: rank_def worker_step_def caught_def LOG_def
      split: option.splits worker_pc.splits reset_outcome.splits start_outcome.splits
        stop_outcome.splits wait_outcome.splits prod.splits)

lemma rank_0: "thread d = Some t \<Longrightarrow> rank d = 0 \<longleftrightarrow> pc t = Finished"
  by (cases "pc t") (simp_all add: rank_def)

text \<open>
  \<open>join\<close> on an interrupted driver returns the driver as the worker leaves it when its
  thread function returns.
\<close>

lemma join_runs_to_end:
  "rank d \<le> n \<Longrightarrow> thread d \<noteq> None \<Longrightarrow> interrupt_requested d \<Longrightarrow>
   \<exists>k t. thread (advance k d) = Some t \<and> pc t = Finished \<and>
         join d = Some (Inr ((advance k d)\<lparr>thread := None\<rparr>))"
proof (induction n arbitrary: d)
  case 0
  then obtain t where t: "thread d = Some t" by auto
  with 0 have f: "pc t = Finished" by (simp add: rank_0)
  have "thread (advance 0 d) = Some t \<and> pc t = Finished \<and>
        join d = Some (Inr ((advance 0 d)\<lparr>thread := None\<rparr>))"
    using t f join_Finished [OF t f] by (simp add: advance_def)
  then show ?case by blast
next
  case (Suc n)
  then obtain t where t: "thread d = Some t" by auto
  show ?case
  proof (cases "pc t = Finished")
    case True
    have "thread (advance 0 d) = Some t \<and> pc t = Finished \<and>
          join d = Some (Inr ((advance 0 d)\<lparr>thread := None\<rparr>))"
      using t True join_Finished [OF t True] by (simp add: advance_def)
    then show ?thesis by blast
  next
    case False
    with t have r: "rank d \<noteq> 0" by (simp add: rank_0)
    have j: "join d = join (worker_step d)" by (rule join_step [OF t False])
    have "rank (worker_step d) \<le> n"
      using worker_step_rank [OF Suc.prems(3) r] Suc.prems(1) by simp
    moreover have "thread (worker_step d) \<noteq> None"
      using Suc.prems(2) by (rule worker_step_thread)
    moreover have "interrupt_requested (worker_step d)"
      using Suc.prems(3) by simp
    ultimately obtain k t' where k:
      "thread (advance k (worker_step d)) = Some t'" "pc t' = Finished"
      "join (worker_step d) = Some (Inr ((advance k (worker_step d))\<lparr>thread := None\<rparr>))"
      using Suc.IH by blast
    have a: "advance (Suc k) d = advance k (worker_step d)"
      by (simp add: advance_def funpow_swap1)
    have "thread (advance (Suc k) d) = Some t' \<and> pc t' = Finished \<and>
          join d = Some (Inr ((advance (Suc k) d)\<lparr>thread := None\<rparr>))"
      using k j by (simp add: a)
    then show ?thesis by blast
  qed
qed

lemma then_res_Inr [simp]: "then_res (Some (Inr x)) f = f x"
  by (simp add: then_res_def)

lemma then_res_Inl [simp]: "then_res (Some (Inl e)) f = Some (Inl e)"
  by (simp add: then_res_def)

lemma then_res_None [simp]: "then_res None f = None"
  by (simp add: then_res_def)

lemma stop_not_joinable: "thread d = None \<Longrightarrow> stop d = Some (Inr d)"
  by (simp add: stop_def)

lemma stop_joinable:
  assumes "thread d = Some t"
  shows "\<exists>d'. stop d = Some (Inr d') \<and> thread d' = None \<and> \<not> interrupt_requested d' \<and>
           serial d' = serial d \<and>
           state d' = (if live d then (if pending_throw d then STATE_ERROR else STATE_OFF)
                       else state d)"
proof (cases "pc t = Finished")
  case True
  let ?d = "d\<lparr>interrupt_requested := True\<rparr>"
  have "join ?d = Some (Inr (?d\<lparr>thread := None\<rparr>))"
    by (rule join_Finished [where t = t]) (use assms True in simp_all)
  then show ?thesis using assms True by (simp add: stop_def live_def)
next
  case False
  let ?d = "d\<lparr>interrupt_requested := True\<rparr>"
  have "\<exists>d'. joined ?d d'"
    by (rule join_interrupted [where t = t]) (use assms False in simp_all)
  then obtain d1 where "joined ?d d1" ..
  moreover have "pending_throw ?d = pending_throw d" by (simp add: pending_throw_def)
  ultimately show ?thesis using assms False by (simp add: stop_def live_def joined_def)
qed

lemma stop_runs_worker_to_end:
  assumes "thread d \<noteq> None"
  shows "\<exists>k t. thread (advance k (d\<lparr>interrupt_requested := True\<rparr>)) = Some t \<and> pc t = Finished \<and>
           stop d = Some (Inr ((advance k (d\<lparr>interrupt_requested := True\<rparr>))
                                 \<lparr>thread := None, interrupt_requested := False\<rparr>))"
proof -
  let ?d = "d\<lparr>interrupt_requested := True\<rparr>"
  have "rank ?d \<le> rank ?d" "thread ?d \<noteq> None" "interrupt_requested ?d"
    using assms by simp_all
  from join_runs_to_end [OF this] obtain k t where
    "thread (advance k ?d) = Some t" "pc t = Finished"
    "join ?d = Some (Inr ((advance k ?d)\<lparr>thread := None\<rparr>))" by blast
  then have "thread (advance k ?d) = Some t \<and> pc t = Finished \<and>
      stop d = Some (Inr ((advance k ?d)\<lparr>thread := None, interrupt_requested := False\<rparr>))"
    using assms by (simp add: stop_def)
  then show ?thesis by blast
qed

lemma stop_returns:
  "\<exists>d'. stop d = Some (Inr d') \<and> thread d' = None \<and> serial d' = serial d \<and>
        (\<not> interrupt_requested d \<longrightarrow> \<not> interrupt_requested d') \<and>
        state d' = (if live d then (if pending_throw d then STATE_ERROR else STATE_OFF)
                    else state d)"
proof (cases "thread d")
  case None
  then show ?thesis by (simp add: stop_not_joinable live_def)
next
  case (Some t)
  from stop_joinable [OF this] show ?thesis by blast
qed

lemma consistent_live: "consistent d \<Longrightarrow> live d \<Longrightarrow> state d = STATE_STARTING \<or> state d = STATE_RUNNING"
  by (auto simp add: consistent_def live_def split: option.splits worker_pc.splits)

lemma consistent_not_live:
  "consistent d \<Longrightarrow> \<not> live d \<Longrightarrow> (state d = STATE_OFF \<or> state d = STATE_ERROR) \<and> \<not> pending_throw d"
  by (auto simp add: consistent_def live_def pending_throw_def split: option.splits worker_pc.splits)

lemma wait_until_ready_done:
  "state d \<noteq> STATE_STARTING \<Longrightarrow> wait_until_ready d = Some (Inr d)"
  by (subst wait_until_ready.simps) simp

lemma wait_until_ready_step:
  "state d = STATE_STARTING \<Longrightarrow> wait_until_ready d = wait_until_ready (worker_step d)"
  by (subst wait_until_ready.simps) simp

lemma ready_At_open:
  assumes "thread d = Some t" "pc t = At_open" "state d = STATE_STARTING" "dev t = r"
    "reset_outcome r = Not_enumerated \<or> reset_outcome r = Reset_done"
  shows "ready r d (worker_step d)"
proof -
  have s: "state (worker_step d) = (if opens r then STATE_RUNNING else STATE_ERROR)"
    using assms by (auto simp add: worker_step_def caught_def LOG_def opens_def split: start_outcome.splits)
  have c: "consistent (worker_step d)"
    using assms by (auto simp add: worker_step_def caught_def LOG_def consistent_def split: start_outcome.splits)
  have t: "\<exists>t'. thread (worker_step d) = Some t' \<and> dev t' = r"
    using assms by (auto simp add: worker_step_def caught_def LOG_def split: start_outcome.splits)
  have "wait_until_ready d = wait_until_ready (worker_step d)"
    using assms by (simp add: wait_until_ready_step)
  also have "\<dots> = Some (Inr (worker_step d))"
    by (rule wait_until_ready_done) (simp add: s)
  finally show ?thesis using s c t by (simp add: ready_def)
qed

lemma ready_At_reset:
  assumes "thread d = Some t" "pc t = At_reset" "state d = STATE_STARTING" "dev t = r"
  shows "\<exists>d'. ready r d d'"
proof -
  have w: "wait_until_ready d = wait_until_ready (worker_step d)"
    using assms by (simp add: wait_until_ready_step)
  have thrown: "ready r d (worker_step d)"
    if "worker_step d = caught e t d0" "interrupt_requested d0 = interrupt_requested d"
      "serial d0 = serial d" "\<not> opens r" for e d0
  proof -
    have "wait_until_ready (worker_step d) = Some (Inr (worker_step d))"
      by (rule wait_until_ready_done) (simp add: that caught_def LOG_def)
    then show ?thesis
      using w that assms by (simp add: ready_def caught_def LOG_def consistent_def)
  qed
  have onward: "\<exists>d'. ready r d d'"
    if "thread (worker_step d) = Some (t\<lparr>pc := At_open\<rparr>)" "state (worker_step d) = STATE_STARTING"
      "reset_outcome r = Not_enumerated \<or> reset_outcome r = Reset_done"
  proof -
    have "ready r (worker_step d) (worker_step (worker_step d))"
      by (rule ready_At_open [where t = "t\<lparr>pc := At_open\<rparr>"]) (use that assms in simp_all)
    then have "ready r d (worker_step (worker_step d))"
      using w by (simp add: ready_def)
    then show ?thesis ..
  qed
  show ?thesis
  proof (cases "reset_outcome (dev t)")
    case (Query_throws e)
    have "ready r d (worker_step d)"
      by (rule thrown [where e = e and ?d0.0 = d])
        (use assms Query_throws in \<open>auto simp add: worker_step_def opens_def\<close>)
    then show ?thesis ..
  next
    case Not_enumerated
    show ?thesis
      by (rule onward) (use assms Not_enumerated in \<open>simp_all add: worker_step_def\<close>)
  next
    case (Reset_throws e)
    have "ready r d (worker_step d)"
      by (rule thrown [where e = e and ?d0.0 = "LOG [Performing_hardware_reset] d"])
        (use assms Reset_throws in \<open>auto simp add: worker_step_def opens_def LOG_def\<close>)
    then show ?thesis ..
  next
    case Reset_done
    show ?thesis
      by (rule onward) (use assms Reset_done in \<open>simp_all add: worker_step_def LOG_def\<close>)
  qed
qed

lemma consistent_out [simp]: "consistent (d\<lparr>out := x\<rparr>) = consistent d"
  by (simp add: consistent_def split: option.splits worker_pc.splits)

lemma start_after_stop_returns:
  assumes "thread d = None"
  shows "\<exists>d'. start_after_stop r b d = Some (Inr d') \<and> consistent d' \<and>
           interrupt_requested d' = interrupt_requested d \<and> serial d' = serial d \<and>
           (\<exists>t. thread d' = Some t \<and> dev t = r) \<and>
           state d' = (if b then (if opens r then STATE_RUNNING else STATE_ERROR)
                       else STATE_STARTING)"
proof -
  let ?d1 = "(LOG [Starting_driver] d)\<lparr>state := STATE_STARTING,
               thread := Some \<lparr>pc = At_reset, dev = r, waited = 0\<rparr>\<rparr>"
  have sp: "spawn r ((LOG [Starting_driver] d)\<lparr>state := STATE_STARTING\<rparr>) = Some (Inr ?d1)"
    using assms by (simp add: spawn_def LOG_def)
  show ?thesis
  proof (cases b)
    case True
    have "\<exists>d2. ready r ?d1 d2"
      by (rule ready_At_reset [where t = "\<lparr>pc = At_reset, dev = r, waited = 0\<rparr>"]) simp_all
    then obtain d2 where "ready r ?d1 d2" ..
    then show ?thesis
      using True sp by (auto simp add: start_after_stop_def ready_def LOG_def)
  next
    case False
    then show ?thesis
      using sp by (simp add: start_after_stop_def LOG_def consistent_def)
  qed
qed

subsection \<open>Stopping and starting one driver\<close>

lemma stop_state:
  assumes "driver_inv d"
  shows "\<exists>d'. stop d = Some (Inr d') \<and> thread d' = None \<and> \<not> interrupt_requested d' \<and>
           serial d' = serial d \<and>
           state d' = (if state d = STATE_ERROR \<or> pending_throw d then STATE_ERROR else STATE_OFF)"
proof -
  from stop_returns [of d] obtain d' where d':
    "stop d = Some (Inr d')" "thread d' = None" "serial d' = serial d"
    "\<not> interrupt_requested d \<longrightarrow> \<not> interrupt_requested d'"
    "state d' = (if live d then (if pending_throw d then STATE_ERROR else STATE_OFF) else state d)"
    by blast
  have c: "consistent d" and i: "\<not> interrupt_requested d"
    using assms by (simp_all add: driver_inv_def)
  have "state d' = (if state d = STATE_ERROR \<or> pending_throw d then STATE_ERROR else STATE_OFF)"
  proof (cases "live d")
    case True
    with consistent_live [OF c] d'(5) show ?thesis by auto
  next
    case False
    with consistent_not_live [OF c] d'(5) show ?thesis by auto
  qed
  with d' i show ?thesis by blast
qed

lemma stop_idle:
  assumes "driver_inv d"
  shows "\<exists>d'. stop d = Some (Inr d') \<and> idle d' \<and> driver_inv d'"
proof -
  from stop_state [OF assms] obtain d' where
    "stop d = Some (Inr d')" "thread d' = None" "\<not> interrupt_requested d'"
    "state d' = (if state d = STATE_ERROR \<or> pending_throw d then STATE_ERROR else STATE_OFF)"
    by blast
  then show ?thesis by (auto simp add: idle_def driver_inv_def consistent_def)
qed

lemma start_returns:
  "\<exists>d0 d'. stop d = Some (Inr d0) \<and> thread d0 = None \<and>
     start r b d = start_after_stop r b d0 \<and> start r b d = Some (Inr d') \<and>
     consistent d' \<and> serial d' = serial d \<and>
     (\<not> interrupt_requested d \<longrightarrow> \<not> interrupt_requested d') \<and>
     (\<exists>t. thread d' = Some t \<and> dev t = r) \<and>
     state d' = (if b then (if opens r then STATE_RUNNING else STATE_ERROR) else STATE_STARTING)"
proof -
  from stop_returns [of d] obtain d0 where d0:
    "stop d = Some (Inr d0)" "thread d0 = None" "serial d0 = serial d"
    "\<not> interrupt_requested d \<longrightarrow> \<not> interrupt_requested d0"
    by blast
  from start_after_stop_returns [OF d0(2), of r b] obtain d' where d':
    "start_after_stop r b d0 = Some (Inr d')" "consistent d'"
    "interrupt_requested d' = interrupt_requested d0" "serial d' = serial d0"
    "\<exists>t. thread d' = Some t \<and> dev t = r"
    "state d' = (if b then (if opens r then STATE_RUNNING else STATE_ERROR) else STATE_STARTING)"
    by blast
  have "start r b d = start_after_stop r b d0"
    using d0(1) by (simp add: start_def)
  with d0 d' show ?thesis by auto
qed

text \<open>
  Claim C8. \<^verbatim>\<open>stop()\<close> on a driver that is already stopped (\<^verbatim>\<open>STATE_OFF\<close>, no
  joinable thread) returns and changes no field of the driver.
\<close>
theorem stop_when_stopped:
  "state d = STATE_OFF \<Longrightarrow> thread d = None \<Longrightarrow> stop d = Some (Inr d)"
  by (simp add: stop_def)

theorem stop_when_stopped_witness:
  "state (new_MiniDriver ''cam'') = STATE_OFF \<and> thread (new_MiniDriver ''cam'') = None \<and>
   stop (new_MiniDriver ''cam'') = Some (Inr (new_MiniDriver ''cam''))"
  using stop_when_stopped [of "new_MiniDriver ''cam''"] by (simp add: new_MiniDriver_def)

text \<open>
  Claim C2, as the code has it. For every driver as its owner finds it, \<^verbatim>\<open>stop()\<close>
  returns, no worker thread is left and \<^verbatim>\<open>interrupt_requested_\<close> is cleared.
  \<^verbatim>\<open>stop()\<close> never writes \<^verbatim>\<open>state_\<close>: the state is \<^verbatim>\<open>STATE_ERROR\<close> when it was so
  before or when an SDK call that the worker still makes throws (a call before its loop,
  the \<^verbatim>\<open>wait_for_frames\<close> under way, or \<^verbatim>\<open>pipeline.stop()\<close>), and \<^verbatim>\<open>STATE_OFF\<close>
  otherwise.
\<close>
theorem stop_postcondition:
  assumes "driver_inv d"
  shows "\<exists>d'. stop d = Some (Inr d') \<and> thread d' = None \<and> \<not> interrupt_requested d' \<and>
           state d' = (if state d = STATE_ERROR \<or> pending_throw d then STATE_ERROR else STATE_OFF)"
  using stop_state [OF assms] by blast

lemma driver_inv_running: "driver_inv running_driver"
  by (simp add: driver_inv_def consistent_def running_driver_def)

theorem stop_postcondition_witness:
  "driver_inv running_driver \<and>
   map_res (\<lambda>d. (state d, thread d, interrupt_requested d)) (stop running_driver) =
     Some (Inr (STATE_OFF, None, False))"
proof -
  have p: "\<not> pending_throw running_driver" "state running_driver = STATE_RUNNING"
    by (simp_all add: pending_throw_def running_driver_def good_run_def)
  from stop_postcondition [OF driver_inv_running] p driver_inv_running
  show ?thesis by (auto simp add: map_res_def)
qed

text \<open>
  A driver whose stream could not be opened is in \<^verbatim>\<open>STATE_ERROR\<close>, and still so
  after \<^verbatim>\<open>stop()\<close>.
\<close>

theorem stop_leaves_error:
  "map_res state (then_res (start failing_run True (new_MiniDriver ''cam'')) stop) =
     Some (Inr STATE_ERROR)"
proof -
  from start_returns [of "new_MiniDriver ''cam''" failing_run True]
  obtain d' where d': "start failing_run True (new_MiniDriver ''cam'') = Some (Inr d')"
    "consistent d'" "\<not> interrupt_requested d'" "state d' = STATE_ERROR"
    by (auto simp add: new_MiniDriver_def opens_def failing_run_def good_run_def)
  then have "driver_inv d'" by (simp add: driver_inv_def)
  from stop_state [OF this] d'(4) obtain d'' where
    "stop d' = Some (Inr d'')" "state d'' = STATE_ERROR" by auto
  with d'(1) show ?thesis by (simp add: map_res_def)
qed

text \<open>
  Claim C7. When \<^verbatim>\<open>reset()\<close> does not throw and opening the stream
  (\<^verbatim>\<open>pipeline.start\<close>) throws, \<^verbatim>\<open>start(true)\<close> returns and leaves the driver in
  \<^verbatim>\<open>STATE_ERROR\<close>, whatever the driver was doing before.
\<close>
theorem start_open_failure:
  assumes "reset_outcome r = Not_enumerated \<or> reset_outcome r = Reset_done"
    and "pipeline_start r = Start_throws e"
  shows "\<exists>d'. start r True d = Some (Inr d') \<and> state d' = STATE_ERROR"
proof -
  have "\<not> opens r" using assms(2) by (simp add: opens_def)
  with start_returns [of d r True] show ?thesis by auto
qed

theorem start_open_failure_witness:
  "(reset_outcome failing_run = Not_enumerated \<or> reset_outcome failing_run = Reset_done) \<and>
   pipeline_start failing_run = Start_throws Rs2_error \<and>
   map_res state (start failing_run True running_driver) = Some (Inr STATE_ERROR)"
proof -
  have h: "reset_outcome failing_run = Not_enumerated \<or> reset_outcome failing_run = Reset_done"
    "pipeline_start failing_run = Start_throws Rs2_error"
    by (simp_all add: failing_run_def good_run_def)
  from start_open_failure [OF h, of running_driver] h
  show ?thesis by (auto simp add: map_res_def)
qed

lemma stop_state_consistent:
  assumes "consistent d" "stop d = Some (Inr d0)"
  shows "state d0 = (if state d = STATE_ERROR \<or> pending_throw d then STATE_ERROR else STATE_OFF)"
proof -
  from stop_returns [of d] assms(2) have s:
    "state d0 = (if live d then (if pending_throw d then STATE_ERROR else STATE_OFF) else state d)"
    by auto
  show ?thesis
  proof (cases "live d")
    case True
    with consistent_live [OF assms(1)] s show ?thesis by auto
  next
    case False
    with consistent_not_live [OF assms(1)] s show ?thesis by auto
  qed
qed

text \<open>
  Claim C4. \<^verbatim>\<open>start()\<close> on any driver first runs \<^verbatim>\<open>stop()\<close> to its end, and
  \<^verbatim>\<open>stop()\<close> lets a worker that is there run, with its interrupt requested, until its
  thread function has returned: the driver \<open>d0\<close> on which the new thread is assigned is
  the driver as that worker left it at its return, without a thread, and (for a driver
  whose state agrees with its worker) in \<^verbatim>\<open>STATE_OFF\<close> or \<^verbatim>\<open>STATE_ERROR\<close>. So the
  earlier worker has ended before the worker of the new run exists, and \<^verbatim>\<open>start()\<close>
  returns with exactly that new worker. Without the \<^verbatim>\<open>stop()\<close> the assignment over a
  joinable thread would terminate the process.
\<close>

theorem start_joins_previous_worker:
  "(\<exists>d0 d' t. stop d = Some (Inr d0) \<and> thread d0 = None \<and>
      (thread d \<noteq> None \<longrightarrow>
         (\<exists>k t0. thread (advance k (d\<lparr>interrupt_requested := True\<rparr>)) = Some t0 \<and>
            pc t0 = Finished \<and>
            d0 = (advance k (d\<lparr>interrupt_requested := True\<rparr>))
                   \<lparr>thread := None, interrupt_requested := False\<rparr>)) \<and>
      (consistent d \<longrightarrow>
         state d0 = (if state d = STATE_ERROR \<or> pending_throw d then STATE_ERROR
                     else STATE_OFF)) \<and>
      start r b d = start_after_stop r b d0 \<and> start r b d = Some (Inr d') \<and>
      thread d' = Some t \<and> dev t = r) \<and>
   (thread d \<noteq> None \<longrightarrow> start_after_stop r b d = Some (Inl Std_terminate))"
proof (rule conjI)
  from start_returns [of d r b] obtain d0 d' t where 1:
    "stop d = Some (Inr d0)" "thread d0 = None" "start r b d = start_after_stop r b d0"
    "start r b d = Some (Inr d')" "thread d' = Some t" "dev t = r"
    by blast
  have 2: "\<exists>k t0. thread (advance k (d\<lparr>interrupt_requested := True\<rparr>)) = Some t0 \<and>
            pc t0 = Finished \<and>
            d0 = (advance k (d\<lparr>interrupt_requested := True\<rparr>))
                   \<lparr>thread := None, interrupt_requested := False\<rparr>"
    if "thread d \<noteq> None"
    using stop_runs_worker_to_end [OF that] 1(1) by auto
  have 3: "state d0 = (if state d = STATE_ERROR \<or> pending_throw d then STATE_ERROR
                       else STATE_OFF)"
    if "consistent d"
    using that 1(1) by (rule stop_state_consistent)
  from 1 2 3 show "\<exists>d0 d' t. stop d = Some (Inr d0) \<and> thread d0 = None \<and>
      (thread d \<noteq> None \<longrightarrow>
         (\<exists>k t0. thread (advance k (d\<lparr>interrupt_requested := True\<rparr>)) = Some t0 \<and>
            pc t0 = Finished \<and>
            d0 = (advance k (d\<lparr>interrupt_requested := True\<rparr>))
                   \<lparr>thread := None, interrupt_requested := False\<rparr>)) \<and>
      (consistent d \<longrightarrow>
         state d0 = (if state d = STATE_ERROR \<or> pending_throw d then STATE_ERROR
                     else STATE_OFF)) \<and>
      start r b d = start_after_stop r b d0 \<and> start r b d = Some (Inr d') \<and>
      thread d' = Some t \<and> dev t = r"
    by blast
next
  show "thread d \<noteq> None \<longrightarrow> start_after_stop r b d = Some (Inl Std_terminate)"
    by (simp add: start_after_stop_def spawn_def LOG_def)
qed

text \<open>
  A second \<^verbatim>\<open>start()\<close> on a driver whose worker is in its sampling loop: the
  \<^verbatim>\<open>stop()\<close> inside leaves the driver in \<^verbatim>\<open>STATE_OFF\<close> without a thread, and the
  driver returned holds the worker of the new run.
\<close>

theorem start_joins_previous_worker_witness:
  "thread running_driver \<noteq> None \<and> consistent running_driver \<and>
   map_res (\<lambda>d. (state d, thread d)) (stop running_driver) = Some (Inr (STATE_OFF, None)) \<and>
   start_after_stop failing_run False running_driver = Some (Inl Std_terminate) \<and>
   map_res (\<lambda>d. map_option dev (thread d)) (start failing_run False running_driver) =
     Some (Inr (Some failing_run))"
proof -
  have j: "thread running_driver \<noteq> None" "consistent running_driver"
    "\<not> pending_throw running_driver" "state running_driver = STATE_RUNNING"
    by (simp_all add: running_driver_def consistent_def pending_throw_def good_run_def)
  from start_joins_previous_worker [of running_driver failing_run False] j
  obtain d0 d' t where "stop running_driver = Some (Inr d0)" "thread d0 = None"
    "state d0 = STATE_OFF"
    "start failing_run False running_driver = Some (Inr d')"
    "thread d' = Some t" "dev t = failing_run"
    and "start_after_stop failing_run False running_driver = Some (Inl Std_terminate)"
    by auto
  with j show ?thesis by (simp add: map_res_def)
qed

subsection \<open>The fleet\<close>

lemma advance_inv: "driver_inv d \<Longrightarrow> driver_inv (advance k d)"
  by (induction k) (simp_all add: advance_def driver_inv_def worker_step_consistent)

lemma advance_idle: "idle d \<Longrightarrow> advance k d = d"
  by (induction k) (simp_all add: advance_def idle_def worker_step_no_thread)

lemma length_workers_advance [simp]: "length (workers_advance p ds) = length ds"
  by (simp add: workers_advance_def)

lemma nth_workers_advance:
  "i < length ds \<Longrightarrow> workers_advance p ds ! i = advance (p i) (ds ! i)"
  by (simp add: workers_advance_def)

lemma all_slice:
  "list_all P (take n (drop m xs)) \<longleftrightarrow> (\<forall>j. m \<le> j \<and> j < m + n \<and> j < length xs \<longrightarrow> P (xs ! j))"
proof
  assume a: "list_all P (take n (drop m xs))"
  show "\<forall>j. m \<le> j \<and> j < m + n \<and> j < length xs \<longrightarrow> P (xs ! j)"
  proof (intro allI impI)
    fix j assume j: "m \<le> j \<and> j < m + n \<and> j < length xs"
    then have k: "j - m < length (take n (drop m xs))" by auto
    with a have "P (take n (drop m xs) ! (j - m))" by (simp add: list_all_length)
    moreover have "take n (drop m xs) ! (j - m) = xs ! j" using j by auto
    ultimately show "P (xs ! j)" by simp
  qed
next
  assume a: "\<forall>j. m \<le> j \<and> j < m + n \<and> j < length xs \<longrightarrow> P (xs ! j)"
  show "list_all P (take n (drop m xs))"
    unfolding list_all_length
  proof (intro allI impI)
    fix k assume k: "k < length (take n (drop m xs))"
    then have "m \<le> m + k \<and> m + k < m + n \<and> m + k < length xs" by auto
    with a have "P (xs ! (m + k))" by blast
    moreover have "take n (drop m xs) ! k = xs ! (m + k)" using k by auto
    ultimately show "P (take n (drop m xs) ! k)" by simp
  qed
qed

lemma all_prefix:
  "list_all P (take n xs) \<longleftrightarrow> (\<forall>j. j < n \<and> j < length xs \<longrightarrow> P (xs ! j))"
  using all_slice [of P n 0 xs] by simp

lemma workers_advance_inv:
  "list_all driver_inv ds \<Longrightarrow> list_all driver_inv (workers_advance p ds)"
  by (simp add: list_all_length nth_workers_advance advance_inv)

lemma workers_advance_idle:
  "list_all idle (take n (drop m ds)) \<Longrightarrow> list_all idle (take n (drop m (workers_advance p ds)))"
  by (simp add: all_slice nth_workers_advance advance_idle)

lemma workers_advance_idle_take:
  "list_all idle (take n ds) \<Longrightarrow> list_all idle (take n (workers_advance p ds))"
  by (simp add: all_prefix nth_workers_advance advance_idle)

lemma nth_update_cases: "P y \<Longrightarrow> P (xs ! j) \<Longrightarrow> j < length xs \<Longrightarrow> P (xs[i := y] ! j)"
  by (cases "i = j") simp_all

lemma update_all:
  "list_all P (take n (drop m xs)) \<Longrightarrow> P y \<Longrightarrow> list_all P (take n (drop m (xs[i := y])))"
  by (simp add: all_slice nth_update_cases)

lemma update_all_take:
  "list_all P (take n xs) \<Longrightarrow> P y \<Longrightarrow> list_all P (take n (xs[i := y]))"
  by (simp add: all_prefix nth_update_cases)

lemma update_all_whole:
  "list_all P xs \<Longrightarrow> P y \<Longrightarrow> list_all P (xs[i := y])"
  by (simp add: list_all_length nth_update_cases)

lemma at_index_Inr:
  assumes "at_index i f ds = Some (Inr ds')"
  shows "i < length ds \<and> (\<exists>d'. f (ds ! i) = Some (Inr d') \<and> ds' = ds[i := d'])"
  using assms by (auto simp add: at_index_def then_res_def split: if_splits option.splits sum.splits)

lemma start_inv:
  assumes "driver_inv d" "start r b d = Some (Inr d')"
  shows "driver_inv d'"
  using start_returns [of d r b] assms by (auto simp add: driver_inv_def)

lemma stop_inv:
  assumes "driver_inv d" "stop d = Some (Inr d')"
  shows "idle d' \<and> driver_inv d'"
  using stop_idle [OF assms(1)] assms(2) by auto

lemma fleet_inv_groups: "fleet_inv c \<Longrightarrow> one_group_idle c"
  by (auto simp add: fleet_inv_def one_group_idle_def split: main_pc.splits)

lemma control_step_Init:
  assumes inv: "fleet_inv c" and at: "control c = Init i"
    and st: "control_step inp c = Some (Inr c')"
  shows "fleet_inv c'"
proof (cases "i < 4")
  case True
  with at st obtain ds where ds: "at_index i (start (device inp) True) (drivers c) = Some (Inr ds)"
    and c': "c' = c\<lparr>drivers := ds, control := Init (i + 1)\<rparr>"
    by (auto simp add: control_step_def then_res_def split: option.splits sum.splits)
  from at_index_Inr [OF ds] obtain d' where i: "i < length (drivers c)"
    and d': "start (device inp) True (drivers c ! i) = Some (Inr d')"
    and upd: "ds = (drivers c)[i := d']" by blast
  have all: "list_all driver_inv (drivers c)" and B: "list_all idle (take 4 (drop 4 (drivers c)))"
    using inv at by (simp_all add: fleet_inv_def group_B_def)
  have "driver_inv (drivers c ! i)" using all i by (simp add: list_all_length)
  from start_inv [OF this d'] have "driver_inv d'" .
  with all have "list_all driver_inv ds" by (simp add: upd update_all_whole)
  moreover have "take 4 (drop 4 ds) = take 4 (drop 4 (drivers c))"
    using True by (simp add: upd drop_update_cancel)
  ultimately show ?thesis
    using inv at True B by (simp add: c' fleet_inv_def group_B_def)
next
  case False
  with at st have "c' = c\<lparr>control := Check\<rparr>" by (simp add: control_step_def)
  with inv at show ?thesis
    by (simp add: fleet_inv_def one_group_idle_def group_A_def group_B_def)
qed

lemma control_step_Stopping:
  assumes inv: "fleet_inv c" and at: "control c = Stopping i"
    and st: "control_step inp c = Some (Inr c')"
  shows "fleet_inv c'"
proof (cases "i < 4")
  case True
  have tg: "toggle c" using inv by (simp add: fleet_inv_def)
  with True at st obtain ds where ds: "at_index i stop (drivers c) = Some (Inr ds)"
    and c': "c' = c\<lparr>drivers := ds, control := Stopping (i + 1)\<rparr>"
    by (auto simp add: control_step_def then_res_def split: option.splits sum.splits)
  from at_index_Inr [OF ds] obtain d' where i: "i < length (drivers c)"
    and d': "stop (drivers c ! i) = Some (Inr d')"
    and upd: "ds = (drivers c)[i := d']" by blast
  have all: "list_all driver_inv (drivers c)"
    and pre: "list_all idle (take i (drivers c))"
    and one: "list_all idle (take 4 (drivers c)) \<or> list_all idle (take 4 (drop 4 (drivers c)))"
    using inv at by (simp_all add: fleet_inv_def one_group_idle_def group_A_def group_B_def)
  have "driver_inv (drivers c ! i)" using all i by (simp add: list_all_length)
  from stop_inv [OF this d'] have d'_ok: "idle d'" "driver_inv d'" by simp_all
  have 1: "list_all driver_inv ds" using all d'_ok by (simp add: upd update_all_whole)
  have "take (Suc i) ds = take i (drivers c) @ [d']"
    using i by (simp add: upd take_Suc_conv_app_nth)
  with pre d'_ok have 2: "list_all idle (take (Suc i) ds)" by simp
  have 3: "list_all idle (take 4 ds) \<or> list_all idle (take 4 (drop 4 ds))"
    using one d'_ok(1) by (auto simp add: upd update_all update_all_take)
  show ?thesis
    using tg True 1 2 3 by (simp add: c' fleet_inv_def one_group_idle_def group_A_def group_B_def)
next
  case False
  have tg: "toggle c" using inv by (simp add: fleet_inv_def)
  with False at st have c': "c' = c\<lparr>control := Starting 4\<rparr>" by (simp add: control_step_def)
  have "i \<le> 4" "list_all idle (take i (drivers c))"
    using inv at by (simp_all add: fleet_inv_def)
  with False have "list_all idle (take 4 (drivers c))" by (cases "i = 4") simp_all
  with inv show ?thesis by (simp add: c' fleet_inv_def group_A_def)
qed

lemma control_step_Starting:
  assumes inv: "fleet_inv c" and at: "control c = Starting i"
    and st: "control_step inp c = Some (Inr c')"
  shows "fleet_inv c'"
proof (cases "i < 8")
  case True
  have tg: "toggle c" using inv by (simp add: fleet_inv_def)
  with True at st obtain ds where ds: "at_index i (start (device inp) True) (drivers c) = Some (Inr ds)"
    and c': "c' = c\<lparr>drivers := ds, control := Starting (i + 1)\<rparr>"
    by (auto simp add: control_step_def then_res_def split: option.splits sum.splits)
  from at_index_Inr [OF ds] obtain d' where i: "i < length (drivers c)"
    and d': "start (device inp) True (drivers c ! i) = Some (Inr d')"
    and upd: "ds = (drivers c)[i := d']" by blast
  have all: "list_all driver_inv (drivers c)" and A: "list_all idle (take 4 (drivers c))"
    and lo: "4 \<le> i"
    using inv at by (simp_all add: fleet_inv_def group_A_def)
  have "driver_inv (drivers c ! i)" using all i by (simp add: list_all_length)
  from start_inv [OF this d'] have "driver_inv d'" .
  with all have "list_all driver_inv ds" by (simp add: upd update_all_whole)
  moreover have "take 4 ds = take 4 (drivers c)"
    using lo by (simp add: upd take_update_cancel)
  ultimately show ?thesis
    using tg lo A by (simp add: c' fleet_inv_def group_A_def)
next
  case False
  have tg: "toggle c" using inv by (simp add: fleet_inv_def)
  with False at st have c': "c' = c\<lparr>started := now_read c, control := Sleep\<rparr>"
    by (simp add: control_step_def)
  with inv at show ?thesis
    by (simp add: fleet_inv_def one_group_idle_def group_A_def group_B_def)
qed

lemma control_step_inv:
  assumes "fleet_inv c" "control_step inp c = Some (Inr c')"
  shows "fleet_inv c'"
proof (cases "control c")
  case (Init i)
  show ?thesis by (rule control_step_Init [OF assms(1) Init assms(2)])
next
  case Check
  with assms show ?thesis
    by (auto simp add: control_step_def fleet_inv_def one_group_idle_def group_A_def
        group_B_def Let_def split: if_splits)
next
  case (Stopping i)
  show ?thesis by (rule control_step_Stopping [OF assms(1) Stopping assms(2)])
next
  case (Starting i)
  show ?thesis by (rule control_step_Starting [OF assms(1) Starting assms(2)])
next
  case Sleep
  with assms show ?thesis
    by (auto simp add: control_step_def fleet_inv_def one_group_idle_def group_A_def group_B_def)
qed

lemma workers_advance_fleet:
  assumes "fleet_inv c"
  shows "fleet_inv (c\<lparr>drivers := workers_advance p (drivers c)\<rparr>)"
proof -
  have "one_group_idle c \<Longrightarrow> one_group_idle (c\<lparr>drivers := workers_advance p (drivers c)\<rparr>)"
    by (auto simp add: one_group_idle_def group_A_def group_B_def workers_advance_idle
        workers_advance_idle_take)
  then show ?thesis
    using assms
    by (auto simp add: fleet_inv_def group_A_def group_B_def workers_advance_inv
        workers_advance_idle workers_advance_idle_take split: main_pc.splits)
qed

lemma main_step_inv:
  assumes "fleet_inv c" "main_step inp c = Some (Inr c')"
  shows "fleet_inv c'"
proof -
  from assms(2) obtain c1 where c1: "control_step inp c = Some (Inr c1)"
    and c': "c' = c1\<lparr>drivers := workers_advance (progress inp) (drivers c1)\<rparr>"
    by (auto simp add: main_step_def then_res_def split: option.splits sum.splits)
  from control_step_inv [OF assms(1) c1] have "fleet_inv c1" .
  then show ?thesis unfolding c' by (rule workers_advance_fleet)
qed

lemma main_run_inv:
  "fleet_inv c \<Longrightarrow> main_run inps c = Some (Inr c') \<Longrightarrow> fleet_inv c'"
proof (induction inps arbitrary: c)
  case Nil
  then show ?case by simp
next
  case (Cons inp inps)
  from Cons.prems(2) obtain c1 where c1: "main_step inp c = Some (Inr c1)"
    and r: "main_run inps c1 = Some (Inr c')"
    by (auto simp add: then_res_def split: option.splits sum.splits)
  from main_step_inv [OF Cons.prems(1) c1] have "fleet_inv c1" .
  from Cons.IH [OF this r] show ?case .
qed

lemma main_init_inv: "fleet_inv (main_init serials t0)"
proof -
  have "list_all driver_inv (map new_MiniDriver serials)"
    by (simp add: list_all_iff driver_inv_def consistent_def new_MiniDriver_def)
  moreover have "list_all idle (take 4 (drop 4 (map new_MiniDriver serials)))"
    by (simp add: all_slice idle_def new_MiniDriver_def)
  ultimately show ?thesis
    by (simp add: fleet_inv_def main_init_def group_B_def)
qed

text \<open>
  Claim C3, as the code has it. After any number of steps of \<^verbatim>\<open>main\<close>, with the
  workers running in between as they like, one of the two groups \<^verbatim>\<open>drivers[0..4)\<close>,
  \<^verbatim>\<open>drivers[4..8)\<close> is stopped: each of its drivers has no worker thread and is in
  \<^verbatim>\<open>STATE_OFF\<close> or \<^verbatim>\<open>STATE_ERROR\<close>, so only the other group can hold drivers in
  \<^verbatim>\<open>STATE_RUNNING\<close> or \<^verbatim>\<open>STATE_STARTING\<close>.
\<close>
theorem one_group_stopped:
  "main_run inps (main_init serials t0) = Some (Inr c) \<Longrightarrow>
   list_all idle (group_A c) \<or> list_all idle (group_B c)"
  using fleet_inv_groups [OF main_run_inv [OF main_init_inv]] by (simp add: one_group_idle_def)


subsection \<open>Running the fleet on concrete cameras\<close>

lemma start_after_stop_good_run:
  assumes "thread d = None"
  shows "start_after_stop good_run True d =
    Some (Inr (d\<lparr>out := out d @ [Starting_driver, Performing_hardware_reset, Reset_triggered,
                               Reset_complete, Device_info, Started_driver],
                state := STATE_RUNNING,
                thread := Some \<lparr>pc = At_check first_locals, dev = good_run, waited = 0\<rparr>\<rparr>))"
proof -
  let ?d1 = "(LOG [Starting_driver] d)\<lparr>state := STATE_STARTING,
               thread := Some \<lparr>pc = At_reset, dev = good_run, waited = 0\<rparr>\<rparr>"
  have sp: "spawn good_run ((LOG [Starting_driver] d)\<lparr>state := STATE_STARTING\<rparr>) = Some (Inr ?d1)"
    using assms by (simp add: spawn_def LOG_def)
  have "wait_until_ready ?d1 = wait_until_ready (worker_step ?d1)"
    by (rule wait_until_ready_step) simp
  also have "\<dots> = wait_until_ready (worker_step (worker_step ?d1))"
    by (rule wait_until_ready_step) (simp add: worker_step_def good_run_def LOG_def)
  also have "\<dots> = Some (Inr (worker_step (worker_step ?d1)))"
    by (rule wait_until_ready_done) (simp add: worker_step_def good_run_def LOG_def)
  finally show ?thesis
    using sp by (simp add: start_after_stop_def)
      (simp add: worker_step_def good_run_def LOG_def first_locals_def)
qed

lemma start_after_stop_failing_run:
  assumes "thread d = None"
  shows "start_after_stop failing_run True d =
    Some (Inr (d\<lparr>out := out d @ [Starting_driver, Performing_hardware_reset, Reset_triggered,
                               Reset_complete, Librealsense_error, Librealsense_what,
                               Started_driver],
                state := STATE_ERROR,
                thread := Some \<lparr>pc = Finished, dev = failing_run, waited = 0\<rparr>\<rparr>))"
proof -
  let ?d1 = "(LOG [Starting_driver] d)\<lparr>state := STATE_STARTING,
               thread := Some \<lparr>pc = At_reset, dev = failing_run, waited = 0\<rparr>\<rparr>"
  have sp: "spawn failing_run ((LOG [Starting_driver] d)\<lparr>state := STATE_STARTING\<rparr>) = Some (Inr ?d1)"
    using assms by (simp add: spawn_def LOG_def)
  have "wait_until_ready ?d1 = wait_until_ready (worker_step ?d1)"
    by (rule wait_until_ready_step) simp
  also have "\<dots> = wait_until_ready (worker_step (worker_step ?d1))"
    by (rule wait_until_ready_step) (simp add: worker_step_def failing_run_def good_run_def LOG_def)
  also have "\<dots> = Some (Inr (worker_step (worker_step ?d1)))"
    by (rule wait_until_ready_done)
      (simp add: worker_step_def failing_run_def good_run_def LOG_def caught_def)
  finally show ?thesis
    using sp by (simp add: start_after_stop_def)
      (simp add: worker_step_def failing_run_def good_run_def LOG_def caught_def)
qed

lemma stop_At_check:
  assumes "thread d = Some t" "pc t = At_check l" "pipeline_stop (dev t) = Stop_ok"
  shows "stop d = Some (Inr (d\<lparr>interrupt_requested := False, state := STATE_OFF, thread := None\<rparr>))"
proof -
  let ?d = "d\<lparr>interrupt_requested := True\<rparr>"
  have "join ?d = join (worker_step ?d)"
    by (rule join_step [where t = t]) (use assms in simp_all)
  also have "\<dots> = Some (Inr ((worker_step ?d)\<lparr>thread := None\<rparr>))"
    by (rule join_Finished [where t = "t\<lparr>pc := Finished\<rparr>"])
      (use assms in \<open>simp_all add: worker_step_def\<close>)
  finally show ?thesis using assms by (simp add: stop_def worker_step_def)
qed

lemma stop_Finished:
  assumes "thread d = Some t" "pc t = Finished"
  shows "stop d = Some (Inr (d\<lparr>interrupt_requested := False, thread := None\<rparr>))"
proof -
  let ?d = "d\<lparr>interrupt_requested := True\<rparr>"
  have "join ?d = Some (Inr (?d\<lparr>thread := None\<rparr>))"
    by (rule join_Finished [where t = t]) (use assms in simp_all)
  then show ?thesis using assms by (simp add: stop_def)
qed

lemma pipeline_stop_good_run: "pipeline_stop good_run = Stop_ok"
  by (simp add: good_run_def)

lemma workers_advance_0: "workers_advance (\<lambda>i. 0) ds = ds"
  by (simp add: workers_advance_def advance_def map_nth)

lemma start_eq: "start r b d = then_res (stop d) (start_after_stop r b)"
  by (simp add: start_def)

lemmas run_simps = main_init_def new_MiniDriver_def main_step_def control_step_def at_index_def
  start_eq start_after_stop_good_run start_after_stop_failing_run stop_At_check stop_Finished
  stop_not_joinable pipeline_stop_good_run workers_advance_0 inp_at_def states_def map_res_def eight_def Let_def
  one_rotation_def two_rotations_def rotation_after_failure_def numeral_eq_Suc

lemma map_res_Inr_D: "map_res f r = Some (Inr y) \<Longrightarrow> \<exists>x. r = Some (Inr x) \<and> f x = y"
  by (auto simp add: map_res_def then_res_def split: option.splits sum.splits)

lemma map_res_Inl_D: "map_res f r = Some (Inl e) \<Longrightarrow> r = Some (Inl e)"
  by (auto simp add: map_res_def then_res_def split: option.splits sum.splits)

lemma states_one_rotation:
  "map_res states (main_run one_rotation (main_init eight 0)) =
     Some (Inr [STATE_OFF, STATE_OFF, STATE_OFF, STATE_OFF,
                STATE_RUNNING, STATE_RUNNING, STATE_RUNNING, STATE_RUNNING])"
  by (simp add: run_simps)

lemma toggle_constant: "main_step inp c = Some (Inr c') \<Longrightarrow> toggle c' = toggle c"
  by (auto simp add: main_step_def control_step_def then_res_def Let_def
      split: main_pc.splits if_splits option.splits sum.splits)

text \<open>
  After one rotation of eight working cameras the drivers of \<^verbatim>\<open>drivers[0..4)\<close> are
  the stopped group.
\<close>

theorem one_group_stopped_witness:
  "map_res (\<lambda>c. list_all idle (group_A c) \<or> list_all idle (group_B c))
     (main_run one_rotation (main_init eight 0)) = Some (Inr True)"
proof -
  from map_res_Inr_D [OF states_one_rotation]
  obtain c where c: "main_run one_rotation (main_init eight 0) = Some (Inr c)" by blast
  from one_group_stopped [OF c] show ?thesis by (simp add: c map_res_def)
qed

text \<open>
  When the camera of \<^verbatim>\<open>drivers[0]\<close> cannot be opened, that driver is still in
  \<^verbatim>\<open>STATE_ERROR\<close> after the rotation has stopped it, while \<^verbatim>\<open>drivers[4..8)\<close> run:
  neither group has all its drivers in \<^verbatim>\<open>STATE_OFF\<close>.
\<close>

theorem error_outlives_rotation:
  "map_res (\<lambda>c. (states c, one_group_off c)) (main_run rotation_after_failure (main_init eight 0)) =
     Some (Inr ([STATE_ERROR, STATE_OFF, STATE_OFF, STATE_OFF,
                 STATE_RUNNING, STATE_RUNNING, STATE_RUNNING, STATE_RUNNING], False))"
  by (simp add: run_simps one_group_off_def group_A_def group_B_def is_off_def)

text \<open>
  Claim C1 at eight cameras that all work. After the first rotation interval
  \<^verbatim>\<open>drivers[0..4)\<close> are in \<^verbatim>\<open>STATE_OFF\<close> and \<^verbatim>\<open>drivers[4..8)\<close> in
  \<^verbatim>\<open>STATE_RUNNING\<close>. When the second interval has passed, \<^verbatim>\<open>main\<close> is back at the
  head of its loop with \<^verbatim>\<open>toggle\<close> still true and every driver in the same state as
  after the first rotation: the groups have not swapped back.
\<close>

theorem second_rotation_repeats_first:
  "map_res (\<lambda>c. (states c, toggle c, control c)) (main_run one_rotation (main_init eight 0)) =
     Some (Inr ([STATE_OFF, STATE_OFF, STATE_OFF, STATE_OFF,
                 STATE_RUNNING, STATE_RUNNING, STATE_RUNNING, STATE_RUNNING], True, Check)) \<and>
   map_res (\<lambda>c. (states c, toggle c, control c)) (main_run two_rotations (main_init eight 0)) =
     Some (Inr ([STATE_OFF, STATE_OFF, STATE_OFF, STATE_OFF,
                 STATE_RUNNING, STATE_RUNNING, STATE_RUNNING, STATE_RUNNING], True, Check))"
  by (simp add: run_simps)

subsection \<open>The accesses to the vector of drivers\<close>

lemma start_some: "\<exists>d'. start r b d = Some (Inr d')"
  using start_returns [of d r b] by blast

lemma stop_some: "\<exists>d'. stop d = Some (Inr d')"
  using stop_returns [of d] by blast

lemma access_outline:
  assumes "\<And>d. \<exists>d'. f d = Some (Inr d')"
  shows "map_res outline_of
           (then_res (then_res (at_index i f (drivers c))
                        (\<lambda>ds. Some (Inr (c\<lparr>drivers := ds, control := k\<rparr>))))
              (\<lambda>c'. Some (Inr (c'\<lparr>drivers := workers_advance p (drivers c')\<rparr>)))) =
         outline_access i k (outline_of c)"
proof (cases "i < length (drivers c)")
  case True
  from assms obtain d' where "f (drivers c ! i) = Some (Inr d')" by blast
  with True show ?thesis
    by (simp add: at_index_def outline_access_def outline_of_def map_res_def)
next
  case False
  then show ?thesis
    by (simp add: at_index_def outline_access_def outline_of_def map_res_def)
qed

lemma main_step_outline:
  "map_res outline_of (main_step inp c) = outline_step (clock inp) (outline_of c)"
proof (cases "control c")
  case (Init i)
  then have k: "o_control (outline_of c) = Init i" by (simp add: outline_of_def)
  show ?thesis
  proof (cases "i < 4")
    case True
    with Init k show ?thesis
      by (simp add: main_step_def control_step_def outline_step_def access_outline [OF start_some])
  next
    case False
    with Init k show ?thesis
      by (simp add: main_step_def control_step_def outline_step_def map_res_def outline_of_def)
  qed
next
  case Check
  then show ?thesis
    by (simp add: main_step_def control_step_def outline_step_def map_res_def outline_of_def Let_def)
next
  case (Stopping i)
  then have k: "o_control (outline_of c) = Stopping i" "o_toggle (outline_of c) = toggle c"
    by (simp_all add: outline_of_def)
  show ?thesis
  proof (cases "i < (if toggle c then 4 else 8)")
    case True
    with Stopping k show ?thesis
      by (simp add: main_step_def control_step_def outline_step_def access_outline [OF stop_some])
  next
    case False
    with Stopping k show ?thesis
      by (simp add: main_step_def control_step_def outline_step_def map_res_def outline_of_def)
  qed
next
  case (Starting i)
  then have k: "o_control (outline_of c) = Starting i" "o_toggle (outline_of c) = toggle c"
    by (simp_all add: outline_of_def)
  show ?thesis
  proof (cases "i < (if toggle c then 8 else 4)")
    case True
    with Starting k show ?thesis
      by (simp add: main_step_def control_step_def outline_step_def access_outline [OF start_some])
  next
    case False
    with Starting k show ?thesis
      by (simp add: main_step_def control_step_def outline_step_def map_res_def outline_of_def Let_def)
  qed
next
  case Sleep
  then show ?thesis
    by (simp add: main_step_def control_step_def outline_step_def map_res_def outline_of_def)
qed

lemma map_res_then_res: "map_res f (then_res r g) = then_res r (\<lambda>x. map_res f (g x))"
  by (simp add: map_res_def then_res_def split: option.splits sum.splits)

lemma then_res_map_res: "then_res (map_res f r) g = then_res r (\<lambda>x. g (f x))"
  by (simp add: map_res_def then_res_def split: option.splits sum.splits)

lemma main_run_outline:
  "map_res outline_of (main_run inps c) = outline_run (map clock inps) (outline_of c)"
proof (induction inps arbitrary: c)
  case Nil
  show ?case by (simp add: map_res_def)
next
  case (Cons inp inps)
  have "map_res outline_of (main_run (inp # inps) c) =
        then_res (main_step inp c) (\<lambda>c'. outline_run (map clock inps) (outline_of c'))"
    by (simp add: map_res_then_res Cons.IH)
  also have "\<dots> = then_res (map_res outline_of (main_step inp c)) (outline_run (map clock inps))"
    by (simp add: then_res_map_res)
  finally show ?case by (simp add: main_step_outline)
qed

lemma outline_step_large:
  assumes "8 \<le> o_size ol"
  shows "\<exists>ol'. outline_step now ol = Some (Inr ol') \<and> o_size ol' = o_size ol"
  using assms
  by (cases "o_control ol") (auto simp add: outline_step_def outline_access_def)

lemma outline_run_large:
  "8 \<le> o_size ol \<Longrightarrow> \<exists>ol'. outline_run nows ol = Some (Inr ol')"
proof (induction nows arbitrary: ol)
  case Nil
  show ?case by simp
next
  case (Cons now nows)
  from outline_step_large [OF Cons.prems, of now] obtain ol1
    where 1: "outline_step now ol = Some (Inr ol1)" "o_size ol1 = o_size ol" by blast
  with Cons.prems have "8 \<le> o_size ol1" by simp
  from Cons.IH [OF this] 1 show ?case by simp
qed

lemma outline_run_small:
  assumes "n < 8" "t0 + 3600 < t"
  shows "outline_run (replicate 15 t)
           \<lparr>o_control = Init 0, o_size = n, o_toggle = True, o_started = t0, o_now = t0\<rparr> =
         Some (Inl Out_of_range)"
proof -
  have t: "3600 < t - t0" using assms(2) by simp
  from assms(1) consider "n = 0" | "n = 1" | "n = 2" | "n = 3" | "n = 4" | "n = 5" | "n = 6" | "n = 7"
    by linarith
  then show ?thesis
    by cases (simp_all add: outline_step_def outline_access_def numeral_eq_Suc t)
qed

text \<open>
  Claim C10. With at least eight enumerated devices every step of \<^verbatim>\<open>main\<close> returns:
  no access to \<^verbatim>\<open>drivers[i]\<close> is out of range. With fewer than eight, \<^verbatim>\<open>main\<close> reaches
  an access beyond the vector within fifteen steps once the rotation interval has passed
  (in the first loop already when there are fewer than four).
\<close>
theorem eight_devices_needed:
  "(8 \<le> length serials \<longrightarrow> (\<exists>c. main_run inps (main_init serials t0) = Some (Inr c))) \<and>
   (length serials < 8 \<and> t0 + 3600 < clock inp \<longrightarrow>
      main_run (replicate 15 inp) (main_init serials t0) = Some (Inl Out_of_range))"
proof (intro conjI impI)
  assume "8 \<le> length serials"
  then have "8 \<le> o_size (outline_of (main_init serials t0))"
    by (simp add: outline_of_def main_init_def)
  from outline_run_large [OF this, of "map clock inps"] obtain ol' where
    "map_res outline_of (main_run inps (main_init serials t0)) = Some (Inr ol')"
    by (auto simp add: main_run_outline)
  from map_res_Inr_D [OF this] show "\<exists>c. main_run inps (main_init serials t0) = Some (Inr c)"
    by blast
next
  assume a: "length serials < 8 \<and> t0 + 3600 < clock inp"
  have "map_res outline_of (main_run (replicate 15 inp) (main_init serials t0)) =
        Some (Inl Out_of_range)"
    using outline_run_small [of "length serials" t0 "clock inp"] a
    by (simp add: main_run_outline outline_of_def main_init_def)
  then show "main_run (replicate 15 inp) (main_init serials t0) = Some (Inl Out_of_range)"
    by (rule map_res_Inl_D)
qed

theorem eight_devices_needed_witness:
  "(8 \<le> length eight \<and> (\<exists>c. main_run two_rotations (main_init eight 0) = Some (Inr c))) \<and>
   (length (butlast eight) < 8 \<and> (0::real) + 3600 < clock (inp_at 3601 good_run) \<and>
      main_run (replicate 15 (inp_at 3601 good_run)) (main_init (butlast eight) 0) =
        Some (Inl Out_of_range))"
  using eight_devices_needed [of eight two_rotations 0 "inp_at 3601 good_run"]
    eight_devices_needed [of "butlast eight" "[]" 0 "inp_at 3601 good_run"]
  by (simp add: eight_def inp_at_def)

subsection \<open>The sampling loop\<close>

lemma throttle_log_last [simp]:
  "last_frame_number (snd (throttle_log now l)) = last_frame_number l"
  by (simp add: throttle_log_def Let_def)

lemma sless_asym: "(a :: 64 word) <s b \<Longrightarrow> \<not> b <s a"
  by (simp add: word_sless_alt)

lemma check_frame_number_cases:
  "check_frame_number n l =
     (if n <s last_frame_number l then [Frame_number_reset (last_frame_number l) n] else [],
      l\<lparr>frame_counter := frame_counter l + (if last_frame_number l <s n then 1 else 0),
        last_frame_number := n\<rparr>)"
  by (auto simp add: check_frame_number_def dest: sless_asym)

lemma worker_step_At_wait:
  assumes "thread d = Some t" "pc t = At_wait l" "waits (dev t) (waited t) = Frames now fd"
  shows "worker_step d =
           LOG (fst (loop_body now fd l))
             (d\<lparr>thread := Some (t\<lparr>pc := At_check (snd (loop_body now fd l)),
                                  waited := Suc (waited t)\<rparr>)\<rparr>)"
  using assms by (simp add: worker_step_def split: prod.splits)

text \<open>
  Claim C5. In every iteration of the sampling loop that receives a depth frame, with
  \<open>l1\<close> the locals after the throttled log of that iteration: a frame number above
  \<^verbatim>\<open>last_frame_number\<close> (as signed 64-bit values) adds one to \<^verbatim>\<open>frame_counter\<close> and
  logs nothing more; a frame number below it logs one frame number reset and leaves
  \<^verbatim>\<open>frame_counter\<close>; an equal one does neither; \<^verbatim>\<open>last_frame_number\<close> becomes the
  observed number in all three cases.
\<close>
theorem frame_number_policy:
  assumes "thread d = Some t" and "pc t = At_wait l"
    and "waits (dev t) (waited t) = Frames now (Some n)"
    and "throttle_log now l = (ms, l1)"
  shows "\<exists>l'. thread (worker_step d) = Some (t\<lparr>pc := At_check l', waited := Suc (waited t)\<rparr>) \<and>
     last_frame_number l' = n \<and>
     (last_frame_number l <s n \<longrightarrow>
        frame_counter l' = frame_counter l1 + 1 \<and> out (worker_step d) = out d @ ms) \<and>
     (n <s last_frame_number l \<longrightarrow>
        frame_counter l' = frame_counter l1 \<and>
        out (worker_step d) = out d @ ms @ [Frame_number_reset (last_frame_number l) n]) \<and>
     (n = last_frame_number l \<longrightarrow>
        frame_counter l' = frame_counter l1 \<and> out (worker_step d) = out d @ ms)"
proof -
  have 1: "last_frame_number l1 = last_frame_number l"
    using throttle_log_last [of now l] assms(4) by simp
  have 2: "loop_body now (Some n) l =
      (ms @ (if n <s last_frame_number l then [Frame_number_reset (last_frame_number l) n] else []),
       l1\<lparr>frame_counter := frame_counter l1 + (if last_frame_number l <s n then 1 else 0),
          last_frame_number := n\<rparr>)"
    using assms(4) by (simp add: loop_body_def check_frame_number_cases 1)
  show ?thesis
    using worker_step_At_wait [OF assms(1-3)]
    by (auto simp add: 2 LOG_def dest: sless_asym)
qed

theorem frame_number_policy_witness:
  "map_option frame_counter (loop_locals (worker_step (waiting_driver 3))) = Some 4 \<and>
   out (worker_step (waiting_driver 3)) = [] \<and>
   map_option frame_counter (loop_locals (worker_step (waiting_driver 7))) = Some 3 \<and>
   out (worker_step (waiting_driver 7)) = [Frame_number_reset 7 5] \<and>
   map_option frame_counter (loop_locals (worker_step (waiting_driver 5))) = Some 3 \<and>
   out (worker_step (waiting_driver 5)) = [] \<and>
   map_option last_frame_number (loop_locals (worker_step (waiting_driver 3))) = Some 5"
proof -
  let ?t = "\<lambda>n. \<lparr>pc = At_wait \<lparr>tp_last_logged = 0, last_frame_number = n, frame_counter = 3\<rparr>,
                 dev = good_run, waited = 5\<rparr>"
  let ?l = "\<lambda>n. \<lparr>tp_last_logged = 0, last_frame_number = n, frame_counter = (3 :: 64 word)\<rparr>"
  have w: "waits (dev (?t n)) (waited (?t n)) = Frames (5 / 6) (Some 5)" for n
    by (simp add: good_run_def)
  have th: "throttle_log (5 / 6) (?l n) = ([], ?l n)" for n
    by (simp add: throttle_log_def)
  have f: "thread (waiting_driver n) = Some (?t n)" "pc (?t n) = At_wait (?l n)" for n
    by (simp_all add: waiting_driver_def)
  have o: "out (waiting_driver n) = []" for n by (simp add: waiting_driver_def)
  have lt: "(3 :: 64 word) <s 5" "(5 :: 64 word) <s 7" by (simp_all add: word_sless_alt)
  from frame_number_policy [OF f w th, of 3] lt(1)
  have a: "map_option frame_counter (loop_locals (worker_step (waiting_driver 3))) = Some 4"
    "out (worker_step (waiting_driver 3)) = []"
    "map_option last_frame_number (loop_locals (worker_step (waiting_driver 3))) = Some 5"
    by (auto simp add: loop_locals_def o)
  from frame_number_policy [OF f w th, of 7] lt(2)
  have b: "map_option frame_counter (loop_locals (worker_step (waiting_driver 7))) = Some 3"
    "out (worker_step (waiting_driver 7)) = [Frame_number_reset 7 5]"
    by (auto simp add: loop_locals_def o)
  from frame_number_policy [OF f w th, of 5]
  have c: "map_option frame_counter (loop_locals (worker_step (waiting_driver 5))) = Some 3"
    "out (worker_step (waiting_driver 5)) = []"
    by (auto simp add: loop_locals_def o)
  from a b c show ?thesis by simp
qed

text \<open>
  The throttled log fires when more than one second has passed since the last one, and
  only then; it resets \<^verbatim>\<open>frame_counter\<close> and the log timer.
\<close>

lemma throttle_log_guard:
  "throttle_log now l =
     (if 1 < now - tp_last_logged l
      then ([FPS (frame_counter l) (now - tp_last_logged l)],
            l\<lparr>frame_counter := 0, tp_last_logged := now\<rparr>)
      else ([], l))"
  by (simp add: throttle_log_def Let_def)

lemma advance_Suc2: "advance (Suc (Suc m)) d = advance m (worker_step (worker_step d))"
  by (simp add: advance_def funpow_swap1)

lemma advance_Suc: "advance (Suc m) d = advance m (worker_step d)"
  by (simp add: advance_def funpow_swap1)

lemma advance_0: "advance 0 d = d"
  by (simp add: advance_def)

lemma throttle_log_zero:
  "frame_counter l = 0 \<Longrightarrow> frame_counter (snd (throttle_log now l)) = 0"
  by (simp add: throttle_log_def Let_def)

lemma throttle_log_no_reset: "filter is_reset (fst (throttle_log now l)) = []"
  by (simp add: throttle_log_def Let_def is_reset_def)

text \<open>
  One iteration of the sampling loop that does not meet a depth frame with a number
  other than 0 keeps both counters at 0 and logs no frame number reset.
\<close>

lemma quiet_iteration:
  assumes "thread d = Some t" "pc t = At_check l" "\<not> interrupt_requested d"
    and "waits (dev t) (waited t) = Frames now fd" "fd = None \<or> fd = Some 0"
    and "last_frame_number l = 0" "frame_counter l = 0"
  shows "\<exists>l'. thread (worker_step (worker_step d)) =
                Some (t\<lparr>pc := At_check l', waited := Suc (waited t)\<rparr>) \<and>
           last_frame_number l' = 0 \<and> frame_counter l' = 0 \<and>
           \<not> interrupt_requested (worker_step (worker_step d)) \<and>
           filter is_reset (out (worker_step (worker_step d))) = filter is_reset (out d)"
proof -
  let ?d1 = "d\<lparr>thread := Some (t\<lparr>pc := At_wait l\<rparr>)\<rparr>"
  have 1: "worker_step d = ?d1" using assms(1-3) by (simp add: worker_step_def)
  have 2: "worker_step ?d1 =
      LOG (fst (loop_body now fd l))
        (?d1\<lparr>thread := Some (t\<lparr>pc := At_wait l\<rparr>\<lparr>pc := At_check (snd (loop_body now fd l)),
                                  waited := Suc (waited (t\<lparr>pc := At_wait l\<rparr>))\<rparr>)\<rparr>)"
    by (rule worker_step_At_wait) (use assms(4) in simp_all)
  obtain ms l1 where th: "throttle_log now l = (ms, l1)" by (cases "throttle_log now l")
  have l1: "frame_counter l1 = 0" "last_frame_number l1 = 0" "filter is_reset ms = []"
    using throttle_log_zero [OF assms(7), of now] throttle_log_last [of now l]
      throttle_log_no_reset [of now l] assms(6) th by simp_all
  have lb: "frame_counter (snd (loop_body now fd l)) = 0 \<and>
      last_frame_number (snd (loop_body now fd l)) = 0 \<and>
      filter is_reset (fst (loop_body now fd l)) = []"
    using assms(5) l1 by (auto simp add: loop_body_def th check_frame_number_def)
  show ?thesis
    by (rule exI [of _ "snd (loop_body now fd l)"]) (use lb assms(3) in \<open>simp add: 1 2 LOG_def\<close>)
qed

lemma quiet_iterations:
  assumes "thread d = Some t" "pc t = At_check l" "\<not> interrupt_requested d"
    and "\<forall>j<k. no_depth (waits (dev t) (waited t + j))"
    and "last_frame_number l = 0" "frame_counter l = 0"
  shows "\<exists>l'. thread (advance (2 * k) d) = Some (t\<lparr>pc := At_check l', waited := waited t + k\<rparr>) \<and>
           last_frame_number l' = 0 \<and> frame_counter l' = 0 \<and>
           \<not> interrupt_requested (advance (2 * k) d) \<and>
           filter is_reset (out (advance (2 * k) d)) = filter is_reset (out d)"
  using assms
proof (induction k arbitrary: d t l)
  case 0
  have "t\<lparr>pc := At_check l, waited := waited t + 0\<rparr> = t"
    using "0.prems"(2) by (cases t) simp
  with "0.prems" show ?case
    by (intro exI [of _ l]) (simp add: advance_0)
next
  case (Suc k)
  let ?d2 = "worker_step (worker_step d)"
  from Suc.prems(4) have "no_depth (waits (dev t) (waited t))" by force
  then obtain now where w: "waits (dev t) (waited t) = Frames now None"
    by (auto simp add: no_depth_def split: wait_outcome.splits option.splits)
  from quiet_iteration [OF Suc.prems(1-3) w _ Suc.prems(5,6)]
  obtain l2 where l2: "thread ?d2 = Some (t\<lparr>pc := At_check l2, waited := Suc (waited t)\<rparr>)"
    "last_frame_number l2 = 0" "frame_counter l2 = 0" "\<not> interrupt_requested ?d2"
    "filter is_reset (out ?d2) = filter is_reset (out d)"
    by auto
  let ?t2 = "t\<lparr>pc := At_check l2, waited := Suc (waited t)\<rparr>"
  have rest: "\<forall>j<k. no_depth (waits (dev ?t2) (waited ?t2 + j))"
  proof (intro allI impI)
    fix j assume "j < k"
    then have "Suc j < Suc k" by simp
    with Suc.prems(4) have "no_depth (waits (dev t) (waited t + Suc j))" by blast
    then show "no_depth (waits (dev ?t2) (waited ?t2 + j))" by simp
  qed
  from Suc.IH [OF l2(1) _ l2(4) rest l2(2,3)]
  obtain l' where
    "thread (advance (2 * k) ?d2) = Some (?t2\<lparr>pc := At_check l', waited := waited ?t2 + k\<rparr>)"
    "last_frame_number l' = 0" "frame_counter l' = 0" "\<not> interrupt_requested (advance (2 * k) ?d2)"
    "filter is_reset (out (advance (2 * k) ?d2)) = filter is_reset (out ?d2)"
    by auto
  then show ?case
    by (intro exI [of _ l']) (simp add: advance_Suc2 l2(5))
qed

text \<open>
  Claim C9. A worker that opens its stream and receives \<open>k\<close> framesets without a depth
  frame and then a depth frame numbered 0 has, after that iteration, \<^verbatim>\<open>frame_counter\<close>
  and \<^verbatim>\<open>last_frame_number\<close> at 0 and has logged no frame number reset.
\<close>
theorem first_frame_zero_is_duplicate:
  assumes "thread d = Some t" and "pc t = At_open" and "pipeline_start (dev t) = Start_ok"
    and "\<not> interrupt_requested d"
    and "\<forall>j<k. no_depth (waits (dev t) (waited t + j))"
    and "waits (dev t) (waited t + k) = Frames now (Some 0)"
  shows "map_option frame_counter (loop_locals (advance (2 * k + 3) d)) = Some 0 \<and>
         map_option last_frame_number (loop_locals (advance (2 * k + 3) d)) = Some 0 \<and>
         filter is_reset (out (advance (2 * k + 3) d)) = filter is_reset (out d)"
proof -
  let ?l0 = "\<lparr>tp_last_logged = tp_started (dev t), last_frame_number = 0, frame_counter = 0\<rparr>"
  let ?t1 = "t\<lparr>pc := At_check ?l0\<rparr>"
  let ?d1 = "worker_step d"
  have d1: "?d1 = LOG [Device_info] (d\<lparr>state := STATE_RUNNING, thread := Some ?t1\<rparr>)"
    using assms(1-3) by (simp add: worker_step_def)
  have t1: "thread ?d1 = Some ?t1" "\<not> interrupt_requested ?d1"
    "filter is_reset (out ?d1) = filter is_reset (out d)"
    using assms(4) by (simp_all add: d1 LOG_def is_reset_def)
  have q: "\<forall>j<k. no_depth (waits (dev ?t1) (waited ?t1 + j))" using assms(5) by simp
  from quiet_iterations [OF t1(1) _ t1(2) q]
  obtain l2 where l2:
    "thread (advance (2 * k) ?d1) = Some (?t1\<lparr>pc := At_check l2, waited := waited ?t1 + k\<rparr>)"
    "last_frame_number l2 = 0" "frame_counter l2 = 0" "\<not> interrupt_requested (advance (2 * k) ?d1)"
    "filter is_reset (out (advance (2 * k) ?d1)) = filter is_reset (out ?d1)"
    by auto
  let ?d2 = "advance (2 * k) ?d1"
  let ?t2 = "?t1\<lparr>pc := At_check l2, waited := waited ?t1 + k\<rparr>"
  have w: "waits (dev ?t2) (waited ?t2) = Frames now (Some 0)" using assms(6) by simp
  from quiet_iteration [OF l2(1) _ l2(4) w _ l2(2,3)]
  obtain l3 where l3:
    "thread (worker_step (worker_step ?d2)) = Some (?t2\<lparr>pc := At_check l3, waited := Suc (waited ?t2)\<rparr>)"
    "last_frame_number l3 = 0" "frame_counter l3 = 0"
    "filter is_reset (out (worker_step (worker_step ?d2))) = filter is_reset (out ?d2)"
    by auto
  have "advance (2 * k + 3) d = worker_step (worker_step ?d2)"
    by (simp add: advance_def funpow_swap1 numeral_3_eq_3)
  with l3 l2(5) t1(3) show ?thesis by (simp add: loop_locals_def)
qed

theorem first_frame_zero_is_duplicate_witness:
  "map_option frame_counter (loop_locals (advance 7 opening_driver)) = Some 0 \<and>
   map_option last_frame_number (loop_locals (advance 7 opening_driver)) = Some 0 \<and>
   filter is_reset (out (advance 7 opening_driver)) = []"
proof -
  let ?t = "\<lparr>pc = At_open, dev = late_depth_run, waited = 0\<rparr>"
  have 1: "thread opening_driver = Some ?t" "pc ?t = At_open"
    "pipeline_start (dev ?t) = Start_ok" "\<not> interrupt_requested opening_driver"
    by (simp_all add: opening_driver_def late_depth_run_def good_run_def)
  have 2: "\<forall>j<2. no_depth (waits (dev ?t) (waited ?t + j))"
    by (simp add: late_depth_run_def no_depth_def)
  have 3: "waits (dev ?t) (waited ?t + 2) = Frames 2 (Some 0)"
    by (simp add: late_depth_run_def)
  from first_frame_zero_is_duplicate [OF 1 2 3]
  show ?thesis by (simp add: opening_driver_def)
qed

end
